theory Spec2Isabelle
  imports Complex_Main
begin

section \<open>Probabilistic suffix trees (pst.py)\<close>

text \<open>
  A shallow embedding of the classes \<open>Node\<close>, \<open>PST\<close> and \<open>PST_model\<close> of \<open>pst.py\<close>.

  \<^item> Python raises are values: a function that can raise returns \<open>py_error + 'a\<close>.
  \<^item> Probabilities are Python floats in the source; here they are exact rationals
    (\<open>rat\<close>), so every statement about a probability is a statement about the exact
    quotient the float approximates.
  \<^item> A \<open>Node\<close> keeps its children in a dict keyed by the child object, the value being
    the dict \<open>{'count': .., 'p': ..}\<close>; the key \<open>'p'\<close> exists only after an
    evaluation pass. The dict is an association list in insertion order, and the inner
    dict is \<open>Info count p\<close> with \<open>p = None\<close> while the key is absent.
  \<^item> The \<open>parent\<close> reference of a \<open>Node\<close> is read only by the constructor (to compute
    \<open>level\<close>) and by the printing code, so the model keeps \<open>level\<close> and drops the
    reference.
  \<^item> The printing and graph-drawing methods are not modelled.
\<close>

subsection \<open>Errors and results\<close>

datatype py_error = IndexError | KeyError | ZeroDivisionError

definition bind_err :: "'e + 'a \<Rightarrow> ('a \<Rightarrow> 'e + 'b) \<Rightarrow> 'e + 'b" where
  "bind_err m f = (case m of Inl e \<Rightarrow> Inl e | Inr x \<Rightarrow> f x)"

text \<open>
  What \<open>get_event_prob\<close> returns and what \<open>get_chain_prob\<close> collects: \<open>None\<close>, a number,
  or the padding value \<open>np.NaN\<close>.
\<close>

datatype pyval = NaN | PyNone | Num rat

subsection \<open>Node\<close>

datatype info = Info (info_count: int) (info_p: "rat option")

datatype 'a node =
  Node (name: 'a) (level: nat) (has_children: bool) (children: "('a node \<times> info) list")

text \<open>\<open>Node.__init__(parent, name)\<close>\<close>

definition Node_init :: "'a node option \<Rightarrow> 'a \<Rightarrow> 'a node" where
  "Node_init parent nm =
     Node nm (case parent of Some q \<Rightarrow> level q + 1 | None \<Rightarrow> 0) False []"

text \<open>\<open>d[key]\<close> on the children dict and \<open>info['p']\<close>: a missing key raises.\<close>

definition dict_get :: "('k \<times> 'v) list \<Rightarrow> 'k \<Rightarrow> py_error + 'v" where
  "dict_get d k = (case map_of d k of None \<Rightarrow> Inl KeyError | Some v \<Rightarrow> Inr v)"

definition get_p :: "info \<Rightarrow> py_error + rat" where
  "get_p i = (case info_p i of None \<Rightarrow> Inl KeyError | Some q \<Rightarrow> Inr q)"

text \<open>\<open>Node.get_child_by_name\<close>: the first child, in dict order, with that name.\<close>

fun first_named :: "'a \<Rightarrow> ('a node \<times> info) list \<Rightarrow> 'a node option" where
  "first_named nm [] = None"
| "first_named nm ((child, i) # rest) =
     (if name child = nm then Some child else first_named nm rest)"

definition get_child_by_name :: "'a node \<Rightarrow> 'a \<Rightarrow> 'a node option" where
  "get_child_by_name self nm = first_named nm (children self)"

text \<open>\<open>self.children[child]['count'] += 1\<close>: the entry of key \<open>child\<close> is updated in place.\<close>

fun incr_count :: "'k \<Rightarrow> ('k \<times> info) list \<Rightarrow> ('k \<times> info) list" where
  "incr_count k [] = []"
| "incr_count k ((k', i) # rest) =
     (if k' = k then (k', Info (info_count i + 1) (info_p i)) # rest
      else (k', i) # incr_count k rest)"

text \<open>
  \<open>Node.add_child\<close> mutates \<open>self\<close> and returns a child; the model returns the new
  \<open>self\<close> and the returned child.
\<close>

definition add_child :: "'a node \<Rightarrow> 'a node \<Rightarrow> 'a node \<times> 'a node" where
  "add_child self nd =
     (case get_child_by_name self (name nd) of
        Some child \<Rightarrow>
          (Node (name self) (level self) True (incr_count child (children self)), child)
      | None \<Rightarrow>
          (Node (name self) (level self) True (children self @ [(nd, Info 1 None)]), nd))"

text \<open>\<open>Node.get_node_distance(self, node)\<close>, where \<open>node\<close> may be \<open>None\<close>.\<close>

fun node_distance_loop ::
  "('a node \<times> info) list \<Rightarrow> 'a node option \<Rightarrow> rat \<Rightarrow> py_error + rat" where
  "node_distance_loop [] other distance = Inr distance"
| "node_distance_loop ((child1, info1) # rest) other distance =
     (case other of
        None \<Rightarrow>
          bind_err (get_p info1) (\<lambda>p1.
          node_distance_loop rest other (distance + p1\<^sup>2))
      | Some nd \<Rightarrow>
          if name child1 \<in> set (map (\<lambda>c. name (fst c)) (children nd)) then
            (case get_child_by_name nd (name child1) of
               None \<Rightarrow> Inl KeyError
             | Some child2 \<Rightarrow>
                 bind_err (dict_get (children nd) child2) (\<lambda>info2.
                 bind_err (get_p info1) (\<lambda>p1.
                 bind_err (get_p info2) (\<lambda>p2.
                 node_distance_loop rest other (distance + (p1 - p2)\<^sup>2)))))
          else
            bind_err (get_p info1) (\<lambda>p1.
            node_distance_loop rest other (distance + p1\<^sup>2)))"

definition node_get_node_distance :: "'a node \<Rightarrow> 'a node option \<Rightarrow> py_error + rat" where
  "node_get_node_distance self other =
     (if \<not> has_children self then Inr 0
      else node_distance_loop (children self) other 0)"

subsection \<open>PST\<close>

record 'a pst =
  pst_root :: "'a node"
  pst_name :: 'a
  pst_depth :: nat
  pst_power :: int

text \<open>
  A node reached by descending from its parent is mutated in place in the source; the
  parent's dict holds the same object. \<open>set_child self c\<close> writes the updated child \<open>c\<close>
  back under the first key with \<open>c\<close>'s name, which is the key the descent came from.
\<close>

fun replace_named :: "'a node \<Rightarrow> ('a node \<times> info) list \<Rightarrow> ('a node \<times> info) list" where
  "replace_named c [] = []"
| "replace_named c ((child, i) # rest) =
     (if name child = name c then (c, i) # rest else (child, i) # replace_named c rest)"

definition set_child :: "'a node \<Rightarrow> 'a node \<Rightarrow> 'a node" where
  "set_child self c =
     Node (name self) (level self) (has_children self) (replace_named c (children self))"

text \<open>
  The loop of \<open>PST.__init__\<close>: it goes on with \<open>new_node\<close> whatever \<open>add_child\<close> returned,
  so the nodes made after a merge into an existing child would hang off a node that is
  not in the tree. (The constructor only ever runs the loop on a fresh root.)
\<close>

fun init_loop :: "'a node \<Rightarrow> 'a list \<Rightarrow> 'a node" where
  "init_loop nd [] = nd"
| "init_loop nd (element # rest) =
     (let new_node = Node_init (Some nd) element;
          nd' = fst (add_child nd new_node)
      in if get_child_by_name nd element = None
         then set_child nd' (init_loop new_node rest)
         else nd')"

definition PST_init :: "'a list \<Rightarrow> py_error + 'a pst" where
  "PST_init init_chain =
     (case init_chain of
        [] \<Rightarrow> Inl IndexError
      | x # rest \<Rightarrow>
          Inr \<lparr>pst_root = init_loop (Node_init None x) rest, pst_name = x,
               pst_depth = length init_chain, pst_power = 0\<rparr>)"

text \<open>\<open>PST.add_subchain\<close>: the loop over \<open>subchain[1:]\<close>, then \<open>self.power += 1\<close>.\<close>

fun add_subchain_loop :: "'a node \<Rightarrow> 'a list \<Rightarrow> 'a node" where
  "add_subchain_loop nd [] = nd"
| "add_subchain_loop nd (element # rest) =
     (case add_child nd (Node_init (Some nd) element) of
        (nd', child) \<Rightarrow> set_child nd' (add_subchain_loop child rest))"

definition add_subchain :: "'a pst \<Rightarrow> 'a list \<Rightarrow> 'a pst" where
  "add_subchain t subchain =
     t\<lparr>pst_root := add_subchain_loop (pst_root t) (drop 1 subchain),
       pst_power := pst_power t + 1\<rparr>"

text \<open>\<open>PST.evaluate_node_probability\<close> and \<open>PST.evaluate_probability\<close>.\<close>

fun evaluate_node_probability :: "'a node \<Rightarrow> py_error + 'a node"
  and evaluate_children ::
    "int \<Rightarrow> ('a node \<times> info) list \<Rightarrow> py_error + ('a node \<times> info) list" where
  "evaluate_node_probability (Node nm lv hc cs) =
     (if length cs = 0 then Inr (Node nm lv hc cs)
      else case evaluate_children (sum_list (map (\<lambda>c. info_count (snd c)) cs)) cs of
             Inl e \<Rightarrow> Inl e
           | Inr cs' \<Rightarrow> Inr (Node nm lv hc cs'))"
| "evaluate_children cnt_sum [] = Inr []"
| "evaluate_children cnt_sum ((child, i) # rest) =
     (if cnt_sum = 0 then Inl ZeroDivisionError
      else case evaluate_node_probability child of
             Inl e \<Rightarrow> Inl e
           | Inr child' \<Rightarrow>
               (case evaluate_children cnt_sum rest of
                  Inl e \<Rightarrow> Inl e
                | Inr rest' \<Rightarrow>
                    Inr ((child',
                          Info (info_count i)
                               (Some (of_int (info_count i) / of_int cnt_sum))) # rest')))"

definition evaluate_probability :: "'a pst \<Rightarrow> py_error + 'a pst" where
  "evaluate_probability t =
     bind_err (evaluate_node_probability (pst_root t)) (\<lambda>r. Inr (t\<lparr>pst_root := r\<rparr>))"

text \<open>\<open>PST.get_node_distance\<close> (without the debug printing) and \<open>PST.get_distance\<close>.\<close>

fun pst_get_node_distance :: "'a node \<Rightarrow> 'a node option \<Rightarrow> rat \<Rightarrow> py_error + rat"
  and pst_distance_loop ::
    "('a node \<times> info) list \<Rightarrow> 'a node option \<Rightarrow> rat \<Rightarrow> py_error + rat" where
  "pst_get_node_distance (Node nm lv hc cs) node2 distance =
     (if \<not> hc then Inr distance
      else case node_get_node_distance (Node nm lv hc cs) node2 of
             Inl e \<Rightarrow> Inl e
           | Inr d \<Rightarrow> pst_distance_loop cs node2 (distance + d))"
| "pst_distance_loop [] node2 distance = Inr distance"
| "pst_distance_loop ((child1, i) # rest) node2 distance =
     (case (case node2 of
              None \<Rightarrow> pst_get_node_distance child1 None distance
            | Some n2 \<Rightarrow>
                if name child1 \<in> set (map (\<lambda>c. name (fst c)) (children n2))
                then pst_get_node_distance child1 (get_child_by_name n2 (name child1)) distance
                else pst_get_node_distance child1 None distance) of
        Inl e \<Rightarrow> Inl e
      | Inr distance' \<Rightarrow> pst_distance_loop rest node2 distance')"

definition get_distance :: "'a pst \<Rightarrow> 'a pst \<Rightarrow> py_error + rat" where
  "get_distance t other = pst_get_node_distance (pst_root t) (Some (pst_root other)) 0"

subsection \<open>PST_model\<close>

record 'a pst_model =
  model_depth :: int
  trees :: "'a pst list"

definition PST_model_init :: "int \<Rightarrow> 'a pst_model" where
  "PST_model_init d = \<lparr>model_depth = d, trees = []\<rparr>"

text \<open>
  A Python slice \<open>xs[i:j]\<close> with integer bounds: a negative bound counts from the end,
  and both are clamped to the list.
\<close>

definition py_slice :: "'a list \<Rightarrow> int \<Rightarrow> int \<Rightarrow> 'a list" where
  "py_slice xs i j =
     (let n = int (length xs);
          a = (if i < 0 then max (i + n) 0 else min i n);
          b = (if j < 0 then max (j + n) 0 else min j n)
      in take (nat (b - a)) (drop (nat a) xs))"

text \<open>\<open>PST_model._get_subchains\<close>\<close>

definition get_subchains :: "'a pst_model \<Rightarrow> 'a list \<Rightarrow> 'a list list" where
  "get_subchains m chain =
     map (\<lambda>i. py_slice chain (int i) (int i + model_depth m))
         [0 ..< nat (int (length chain) - model_depth m)]"

text \<open>\<open>PST_model.get_PST_by_name\<close>\<close>

definition get_PST_by_name :: "'a pst_model \<Rightarrow> 'a \<Rightarrow> 'a pst option" where
  "get_PST_by_name m nm = find (\<lambda>t. pst_name t = nm) (trees m)"

text \<open>
  \<open>PST_model.fit\<close>: the body of the loop over the windows, the loop, the evaluation of
  every tree. The tree found by name is the object mutated, so the new tree replaces
  the first tree of that name.
\<close>

fun replace_tree :: "'a pst \<Rightarrow> 'a pst list \<Rightarrow> 'a pst list" where
  "replace_tree t [] = []"
| "replace_tree t (u # rest) =
     (if pst_name u = pst_name t then t # rest else u # replace_tree t rest)"

definition fit_step :: "'a pst_model \<Rightarrow> 'a list \<Rightarrow> py_error + 'a pst_model" where
  "fit_step m subchain =
     (case subchain of
        [] \<Rightarrow> Inl IndexError
      | x # rest \<Rightarrow>
          (case get_PST_by_name m x of
             Some t \<Rightarrow> Inr (m\<lparr>trees := replace_tree (add_subchain t subchain) (trees m)\<rparr>)
           | None \<Rightarrow>
               bind_err (PST_init subchain) (\<lambda>new_pst.
               Inr (m\<lparr>trees := trees m @ [new_pst]\<rparr>))))"

fun fit_loop :: "'a pst_model \<Rightarrow> 'a list list \<Rightarrow> py_error + 'a pst_model" where
  "fit_loop m [] = Inr m"
| "fit_loop m (subchain # rest) = bind_err (fit_step m subchain) (\<lambda>m'. fit_loop m' rest)"

fun evaluate_trees :: "'a pst list \<Rightarrow> py_error + 'a pst list" where
  "evaluate_trees [] = Inr []"
| "evaluate_trees (t # rest) =
     bind_err (evaluate_probability t) (\<lambda>t'.
     bind_err (evaluate_trees rest) (\<lambda>rest'. Inr (t' # rest')))"

definition fit_windows :: "'a pst_model \<Rightarrow> 'a list list \<Rightarrow> py_error + 'a pst_model" where
  "fit_windows m subchains =
     bind_err (fit_loop m subchains) (\<lambda>m'.
     bind_err (evaluate_trees (trees m')) (\<lambda>ts. Inr (m'\<lparr>trees := ts\<rparr>)))"

definition fit :: "'a pst_model \<Rightarrow> 'a list \<Rightarrow> py_error + 'a pst_model" where
  "fit m chain = fit_windows m (get_subchains m chain)"

text \<open>\<open>PST_model.get_event_prob\<close>: the walk along \<open>subchain[1:]\<close>, then the method.\<close>

fun event_walk :: "'a node \<Rightarrow> rat \<Rightarrow> 'a list \<Rightarrow> py_error + pyval" where
  "event_walk nd prob [] = Inr (Num prob)"
| "event_walk nd prob (element # rest) =
     (case get_child_by_name nd element of
        None \<Rightarrow> Inr (Num 0)
      | Some child \<Rightarrow>
          bind_err (dict_get (children nd) child) (\<lambda>i.
          bind_err (get_p i) (\<lambda>q.
          event_walk child (prob * q) rest)))"

definition get_event_prob :: "'a pst_model \<Rightarrow> 'a list \<Rightarrow> py_error + pyval" where
  "get_event_prob m subchain =
     (if int (length subchain) \<noteq> model_depth m then Inr PyNone
      else case subchain of
             [] \<Rightarrow> Inl IndexError
           | x # rest \<Rightarrow>
               (case get_PST_by_name m x of
                  Some t \<Rightarrow> event_walk (pst_root t) 1 rest
                | None \<Rightarrow> Inr (Num 0)))"

text \<open>\<open>PST_model.get_chain_prob\<close>\<close>

fun event_probs :: "'a pst_model \<Rightarrow> 'a list list \<Rightarrow> py_error + pyval list" where
  "event_probs m [] = Inr []"
| "event_probs m (subchain # rest) =
     bind_err (get_event_prob m subchain) (\<lambda>v.
     bind_err (event_probs m rest) (\<lambda>vs. Inr (v # vs)))"

definition get_chain_prob :: "'a pst_model \<Rightarrow> 'a list \<Rightarrow> py_error + pyval list" where
  "get_chain_prob m chain =
     bind_err (event_probs m (get_subchains m chain)) (\<lambda>vs.
     Inr (replicate (nat (model_depth m)) NaN @ vs))"


subsection \<open>Properties of nodes and trees\<close>

text \<open>All the nodes of the tree below (and including) a node, parents first.\<close>

fun nodes_of :: "'a node \<Rightarrow> 'a node list"
  and nodes_of_children :: "('a node \<times> info) list \<Rightarrow> 'a node list" where
  "nodes_of (Node nm lv hc cs) = Node nm lv hc cs # nodes_of_children cs"
| "nodes_of_children [] = []"
| "nodes_of_children ((child, i) # rest) = nodes_of child @ nodes_of_children rest"

text \<open>The children of a node have pairwise different names.\<close>

definition unique_labels :: "'a node \<Rightarrow> bool" where
  "unique_labels n = distinct (map (\<lambda>c. name (fst c)) (children n))"

text \<open>Every child entry of a node has its key \<open>'p'\<close>.\<close>

definition evaluated_node :: "'a node \<Rightarrow> bool" where
  "evaluated_node n = list_all (\<lambda>c. info_p (snd c) \<noteq> None) (children n)"

text \<open>Every count of a node's children is a positive integer.\<close>

definition positive_counts :: "'a node \<Rightarrow> bool" where
  "positive_counts n = list_all (\<lambda>c. 0 < info_count (snd c)) (children n)"

text \<open>The flag \<open>has_children\<close> says whether the dict of children is non-empty.\<close>

definition flag_ok :: "'a node \<Rightarrow> bool" where
  "flag_ok n = (has_children n = (children n \<noteq> []))"

definition tree_all :: "('a node \<Rightarrow> bool) \<Rightarrow> 'a node \<Rightarrow> bool" where
  "tree_all P r = list_all P (nodes_of r)"

definition model_evaluated :: "'a pst_model \<Rightarrow> bool" where
  "model_evaluated m = list_all (\<lambda>t. tree_all evaluated_node (pst_root t)) (trees m)"

text \<open>
  Every contiguous slice of length \<open>d\<close> of a list, by increasing start index
  \<open>0, \<dots>, length xs - d\<close>: the complete sliding window, against which the windows of
  \<open>_get_subchains\<close> are compared.
\<close>

definition all_windows :: "nat \<Rightarrow> 'a list \<Rightarrow> 'a list list" where
  "all_windows d xs = map (\<lambda>i. take d (drop i xs)) [0 ..< length xs - d + 1]"

text \<open>
  The entries of a node's children with a given name, and the sum of their counts (0
  when the node has no child of that name).
\<close>

definition label_children :: "'a node \<Rightarrow> 'a \<Rightarrow> ('a node \<times> info) list" where
  "label_children n l = filter (\<lambda>c. name (fst c) = l) (children n)"

definition label_count :: "'a node \<Rightarrow> 'a \<Rightarrow> int" where
  "label_count n l = sum_list (map (\<lambda>c. info_count (snd c)) (label_children n l))"

text \<open>\<open>add_child\<close> called on the same node with one candidate after the other.\<close>

fun merge_all :: "'a node \<Rightarrow> 'a node list \<Rightarrow> 'a node" where
  "merge_all self [] = self"
| "merge_all self (c # cs) = merge_all (fst (add_child self c)) cs"

text \<open>
  The sum of the probabilities of a node's children; \<open>None\<close> when a child has no \<open>'p'\<close>.
\<close>

fun sum_probabilities :: "('a node \<times> info) list \<Rightarrow> rat option" where
  "sum_probabilities [] = Some 0"
| "sum_probabilities ((child, i) # rest) =
     (case info_p i of
        None \<Rightarrow> None
      | Some q \<Rightarrow> (case sum_probabilities rest of None \<Rightarrow> None | Some s \<Rightarrow> Some (q + s)))"

text \<open>The sum of the counts of a node's children (\<open>cnt_sum\<close>).\<close>

definition count_sum :: "'a node \<Rightarrow> int" where
  "count_sum n = sum_list (map (\<lambda>c. info_count (snd c)) (children n))"

text \<open>
  What holds of every node \<open>PST.__init__\<close> and \<open>add_subchain\<close> build: children with
  pairwise different names, positive counts, and a \<open>has_children\<close> flag that is set
  exactly when there are children.
\<close>

definition node_inv :: "'a node \<Rightarrow> bool" where
  "node_inv n = (unique_labels n \<and> positive_counts n \<and> flag_ok n)"

text \<open>
  Every child's probability is its count divided by the sum of the counts of the node's
  children; and, where there are children, that sum is not zero.
\<close>

definition ml_estimates :: "'a node \<Rightarrow> bool" where
  "ml_estimates n =
     list_all (\<lambda>c. info_p (snd c) = Some (of_int (info_count (snd c)) / of_int (count_sum n)))
       (children n)"

definition estimated :: "'a node \<Rightarrow> bool" where
  "estimated n = (ml_estimates n \<and> (children n \<noteq> [] \<longrightarrow> count_sum n \<noteq> 0))"

text \<open>
  The distance of a node to another one (or to none) in the words of the
  specification: the sum, over this node's children, of \<open>(p1 - p2)\<^sup>2\<close> when the other
  node has a child of the same name with probability \<open>p2\<close>, and of \<open>p1\<^sup>2\<close> when the
  other node is none or has no such child. A probability that was never evaluated
  counts as 0 here; the statements below are about evaluated nodes.
\<close>

definition prob_or_zero :: "info \<Rightarrow> rat" where
  "prob_or_zero i = (case info_p i of Some q \<Rightarrow> q | None \<Rightarrow> 0)"

definition spec_contribution :: "'a node option \<Rightarrow> 'a node \<times> info \<Rightarrow> rat" where
  "spec_contribution other c =
     (case other of
        None \<Rightarrow> (prob_or_zero (snd c))\<^sup>2
      | Some nd \<Rightarrow>
          (case find (\<lambda>c2. name (fst c2) = name (fst c)) (children nd) of
             None \<Rightarrow> (prob_or_zero (snd c))\<^sup>2
           | Some c2 \<Rightarrow> (prob_or_zero (snd c) - prob_or_zero (snd c2))\<^sup>2))"

definition spec_distance_to :: "'a node \<Rightarrow> 'a node option \<Rightarrow> rat" where
  "spec_distance_to n other = sum_list (map (spec_contribution other) (children n))"

definition evaluated_opt :: "'a node option \<Rightarrow> bool" where
  "evaluated_opt other = (case other of None \<Rightarrow> True | Some nd \<Rightarrow> evaluated_node nd)"

text \<open>
  The node a walk reaches from a node along a list of names, following
  \<open>get_child_by_name\<close> at every step; \<open>None\<close> when a name has no child.
\<close>

fun descend :: "'a node \<Rightarrow> 'a list \<Rightarrow> 'a node option" where
  "descend nd [] = Some nd"
| "descend nd (e # es) =
     (case get_child_by_name nd e of None \<Rightarrow> None | Some child \<Rightarrow> descend child es)"

text \<open>
  The model of the scenario of the specification: depth 3, one tree \<open>A\<close> whose node
  \<open>B\<close> has the children \<open>C\<close> (count 2) and \<open>D\<close> (count 1).
\<close>

definition scenario_B :: "string node" where
  "scenario_B = Node ''B'' 1 True
     [(Node ''C'' 2 False [], Info 2 (Some (2 / 3))),
      (Node ''D'' 2 False [], Info 1 (Some (1 / 3)))]"

definition scenario_tree :: "string pst" where
  "scenario_tree =
     \<lparr>pst_root = Node ''A'' 0 True [(scenario_B, Info 3 (Some 1))],
      pst_name = ''A'', pst_depth = 3, pst_power = 2\<rparr>"

definition scenario_model :: "string pst_model" where
  "scenario_model = \<lparr>model_depth = 3, trees = [scenario_tree]\<rparr>"

section \<open>Auxiliary facts\<close>

lemma bind_err_simps [simp]:
  "bind_err (Inl e) f = Inl e"
  "bind_err (Inr x) f = f x"
  by (simp_all add: bind_err_def)

lemma bind_err_cong:
  "m = m' \<Longrightarrow> (\<And>x. m' = Inr x \<Longrightarrow> f x = f' x) \<Longrightarrow> bind_err m f = bind_err m' f'"
  by (simp add: bind_err_def split: sum.splits)

lemma bind_err_eq_Inr:
  "bind_err m f = Inr y \<longleftrightarrow> (\<exists>x. m = Inr x \<and> f x = Inr y)"
  by (cases m) simp_all

lemma py_slice_window:
  assumes "0 \<le> d"
  shows "py_slice xs (int i) (int i + d) = take (nat d) (drop i xs)"
proof (cases "i \<le> length xs")
  case True
  show ?thesis
  proof (cases "int i + d \<le> int (length xs)")
    case True
    with assms \<open>i \<le> length xs\<close> show ?thesis
      by (simp add: py_slice_def Let_def min_def nat_add_distrib)
  next
    case False
    with assms \<open>i \<le> length xs\<close> show ?thesis
      by (simp add: py_slice_def Let_def min_def nat_diff_distrib)
  qed
next
  case False
  with assms show ?thesis
    by (simp add: py_slice_def Let_def min_def)
qed

lemma first_named_None:
  "first_named nm cs = None \<longleftrightarrow> nm \<notin> set (map (\<lambda>c. name (fst c)) cs)"
  by (induction nm cs rule: first_named.induct) simp_all

lemma first_named_Some_split:
  "first_named nm cs = Some child \<Longrightarrow>
     \<exists>pre i post. cs = pre @ (child, i) # post
        \<and> nm \<notin> set (map (\<lambda>c. name (fst c)) pre) \<and> name child = nm"
proof (induction cs)
  case Nil
  then show ?case by simp
next
  case (Cons e cs)
  obtain c i where e: "e = (c, i)" by (cases e)
  show ?case
  proof (cases "name c = nm")
    case True
    with Cons.prems e have "child = c" by simp
    with True e have "e # cs = [] @ (child, i) # cs \<and> nm \<notin> set (map (\<lambda>c. name (fst c)) [])
        \<and> name child = nm" by simp
    then show ?thesis by blast
  next
    case False
    with Cons.prems e have "first_named nm cs = Some child" by simp
    from Cons.IH [OF this] obtain pre j post where
      "cs = pre @ (child, j) # post" "nm \<notin> set (map (\<lambda>c. name (fst c)) pre)" "name child = nm"
      by blast
    with False e have "e # cs = (e # pre) @ (child, j) # post
        \<and> nm \<notin> set (map (\<lambda>c. name (fst c)) (e # pre)) \<and> name child = nm" by auto
    then show ?thesis by blast
  qed
qed

lemma incr_count_split:
  "name child \<notin> set (map (\<lambda>c. name (fst c)) pre) \<Longrightarrow>
   incr_count child (pre @ (child, i) # post)
     = pre @ (child, Info (info_count i + 1) (info_p i)) # post"
  by (induction pre) auto

lemma map_of_split:
  "name child \<notin> set (map (\<lambda>c. name (fst c)) pre) \<Longrightarrow>
   map_of (pre @ (child, i) # post) child = Some i"
  by (induction pre) auto

lemma replace_named_split:
  "name c \<notin> set (map (\<lambda>c. name (fst c)) pre) \<Longrightarrow> name child = name c \<Longrightarrow>
   replace_named c (pre @ (child, i) # post) = pre @ (c, i) # post"
  by (induction pre) auto


lemma filter_label_absent:
  "nm \<notin> set (map (\<lambda>c. name (fst c)) cs) \<Longrightarrow> filter (\<lambda>c. name (fst c) = nm) cs = []"
  by (induction cs) auto

lemma add_child_found:
  assumes "get_child_by_name self (name cand) = Some child"
  shows "snd (add_child self cand) = child" and "name child = name cand"
    and "\<exists>pre i post.
            children self = pre @ (child, i) # post
            \<and> name cand \<notin> set (map (\<lambda>c. name (fst c)) pre)
            \<and> children (fst (add_child self cand))
                = pre @ (child, Info (info_count i + 1) (info_p i)) # post"
proof -
  from assms show "snd (add_child self cand) = child"
    by (simp add: add_child_def)
  from assms have f: "first_named (name cand) (children self) = Some child"
    by (simp add: get_child_by_name_def)
  from first_named_Some_split [OF f] obtain pre i post where
    sp: "children self = pre @ (child, i) # post"
      "name cand \<notin> set (map (\<lambda>c. name (fst c)) pre)" "name child = name cand"
    by blast
  from sp show "name child = name cand" by simp
  from sp have "incr_count child (children self)
      = pre @ (child, Info (info_count i + 1) (info_p i)) # post"
    by (simp add: incr_count_split)
  with assms have "children (fst (add_child self cand))
      = pre @ (child, Info (info_count i + 1) (info_p i)) # post"
    by (simp add: add_child_def)
  with sp show "\<exists>pre i post.
            children self = pre @ (child, i) # post
            \<and> name cand \<notin> set (map (\<lambda>c. name (fst c)) pre)
            \<and> children (fst (add_child self cand))
                = pre @ (child, Info (info_count i + 1) (info_p i)) # post"
    by blast
qed

lemma add_child_new:
  assumes "get_child_by_name self (name cand) = None"
  shows "snd (add_child self cand) = cand"
    and "name cand \<notin> set (map (\<lambda>c. name (fst c)) (children self))"
    and "children (fst (add_child self cand)) = children self @ [(cand, Info 1 None)]"
proof -
  from assms show "snd (add_child self cand) = cand"
    and "children (fst (add_child self cand)) = children self @ [(cand, Info 1 None)]"
    by (simp_all add: add_child_def)
  from assms have "first_named (name cand) (children self) = None"
    by (simp add: get_child_by_name_def)
  then show "name cand \<notin> set (map (\<lambda>c. name (fst c)) (children self))"
    by (simp add: first_named_None)
qed

lemma add_child_fields:
  "name (fst (add_child self cand)) = name self"
  "level (fst (add_child self cand)) = level self"
  "has_children (fst (add_child self cand))"
  by (simp_all add: add_child_def split: option.splits)

lemma add_child_names:
  "map (\<lambda>c. name (fst c)) (children (fst (add_child self cand)))
     = (if name cand \<in> set (map (\<lambda>c. name (fst c)) (children self))
        then map (\<lambda>c. name (fst c)) (children self)
        else map (\<lambda>c. name (fst c)) (children self) @ [name cand])"
proof (cases "get_child_by_name self (name cand)")
  case None
  from add_child_new [OF None] show ?thesis by simp
next
  case (Some child)
  from add_child_found(3) [OF Some] obtain pre i post where
    sp: "children self = pre @ (child, i) # post"
      "children (fst (add_child self cand))
         = pre @ (child, Info (info_count i + 1) (info_p i)) # post"
    by blast
  from add_child_found(2) [OF Some] sp show ?thesis by simp
qed

lemma add_child_unique_labels:
  "unique_labels self \<Longrightarrow> unique_labels (fst (add_child self cand))"
  by (simp add: unique_labels_def add_child_names)

lemma add_child_label_count:
  assumes "unique_labels self"
  shows "length (label_children (fst (add_child self cand)) (name cand)) = 1"
    and "label_count (fst (add_child self cand)) (name cand)
           = label_count self (name cand) + 1"
proof -
  have "length (label_children (fst (add_child self cand)) (name cand)) = 1
      \<and> label_count (fst (add_child self cand)) (name cand)
           = label_count self (name cand) + 1"
  proof (cases "get_child_by_name self (name cand)")
    case None
    from add_child_new(2,3) [OF None] have
      "filter (\<lambda>c. name (fst c) = name cand) (children self) = []"
      "children (fst (add_child self cand)) = children self @ [(cand, Info 1 None)]"
      by (simp_all add: filter_label_absent)
    then show ?thesis by (simp add: label_children_def label_count_def)
  next
    case (Some child)
    from add_child_found(3) [OF Some] obtain pre i post where
      sp: "children self = pre @ (child, i) # post"
        "name cand \<notin> set (map (\<lambda>c. name (fst c)) pre)"
        "children (fst (add_child self cand))
           = pre @ (child, Info (info_count i + 1) (info_p i)) # post"
      by blast
    from add_child_found(2) [OF Some] have nm: "name child = name cand" .
    from assms sp(1) nm have "name cand \<notin> set (map (\<lambda>c. name (fst c)) post)"
      by (auto simp: unique_labels_def)
    then have post: "filter (\<lambda>c. name (fst c) = name cand) post = []"
      by (rule filter_label_absent)
    from sp(2) have pre: "filter (\<lambda>c. name (fst c) = name cand) pre = []"
      by (rule filter_label_absent)
    from sp(1,3) nm pre post show ?thesis
      by (simp add: label_children_def label_count_def)
  qed
  then show "length (label_children (fst (add_child self cand)) (name cand)) = 1"
    and "label_count (fst (add_child self cand)) (name cand)
           = label_count self (name cand) + 1"
    by simp_all
qed

lemma merge_all_same_label:
  assumes "unique_labels self" and "cs \<noteq> []" and "\<forall>c \<in> set cs. name c = l"
  shows "unique_labels (merge_all self cs)
        \<and> length (label_children (merge_all self cs) l) = 1
        \<and> label_count (merge_all self cs) l = int (length cs) + label_count self l"
  using assms
proof (induction cs arbitrary: self)
  case Nil
  then show ?case by simp
next
  case (Cons c cs)
  let ?s = "fst (add_child self c)"
  from Cons.prems have l: "name c = l" by simp
  from Cons.prems have u: "unique_labels ?s" by (simp add: add_child_unique_labels)
  show ?case
  proof (cases "cs = []")
    case True
    with u l add_child_label_count [OF Cons.prems(1), of c] show ?thesis by simp
  next
    case False
    from Cons.prems have "\<forall>c \<in> set cs. name c = l" by simp
    from Cons.IH [OF u False this] l add_child_label_count(2) [OF Cons.prems(1), of c]
    show ?thesis by simp
  qed
qed

lemma nodes_of_children_concat:
  "nodes_of_children cs = concat (map (\<lambda>c. nodes_of (fst c)) cs)"
  by (induction cs) auto

lemma tree_all_Node:
  "tree_all P (Node nm lv hc cs)
     = (P (Node nm lv hc cs) \<and> list_all (\<lambda>c. tree_all P (fst c)) cs)"
  by (simp add: tree_all_def nodes_of_children_concat list_all_iff)

lemma tree_all_root: "tree_all P n \<Longrightarrow> P n"
  by (cases n) (simp add: tree_all_Node)

lemma tree_all_child:
  "tree_all P n \<Longrightarrow> c \<in> set (children n) \<Longrightarrow> tree_all P (fst c)"
  by (cases n) (auto simp: tree_all_Node list_all_iff)

lemma tree_all_conj: "tree_all (\<lambda>n. P n \<and> Q n) r = (tree_all P r \<and> tree_all Q r)"
  by (auto simp: tree_all_def list_all_iff)

lemma tree_all_nodes: "tree_all P r = (\<forall>n \<in> set (nodes_of r). P n)"
  by (simp add: tree_all_def list_all_iff)

lemma sum_probabilities_known:
  "list_all (\<lambda>c. info_p (snd c) = Some (f c)) cs \<Longrightarrow>
   sum_probabilities cs = Some (sum_list (map f cs))"
  by (induction cs) auto

lemma sum_list_quotients:
  "sum_list (map (\<lambda>c. (of_int (g c) :: rat) / of_int s) cs)
     = of_int (sum_list (map g cs)) / of_int s"
  by (induction cs) (simp_all add: add_divide_distrib)

lemma positive_sum:
  "list_all (\<lambda>c. 0 < info_count (snd c)) cs \<Longrightarrow> cs \<noteq> [] \<Longrightarrow>
   0 < sum_list (map (\<lambda>c. info_count (snd c)) cs)"
proof (induction cs)
  case Nil
  then show ?case by simp
next
  case (Cons c cs)
  then show ?case by (cases "cs = []") auto
qed

lemma evaluate_shape:
  fixes n :: "'a node" and cs :: "('a node \<times> info) list"
  shows "(\<forall>n'. evaluate_node_probability n = Inr n' \<longrightarrow>
       name n' = name n \<and> level n' = level n \<and> has_children n' = has_children n
       \<and> (children n' = [] \<longleftrightarrow> children n = [])
       \<and> tree_all estimated n')"
  and "(\<forall>cs'. evaluate_children s cs = Inr cs' \<longrightarrow>
       (cs \<noteq> [] \<longrightarrow> s \<noteq> 0)
       \<and> map (\<lambda>c. info_count (snd c)) cs' = map (\<lambda>c. info_count (snd c)) cs
       \<and> map (\<lambda>c. name (fst c)) cs' = map (\<lambda>c. name (fst c)) cs
       \<and> list_all (\<lambda>c. info_p (snd c) = Some (of_int (info_count (snd c)) / of_int s)) cs'
       \<and> list_all (\<lambda>c. tree_all estimated (fst c)) cs')"
proof (induction n and s cs rule: evaluate_node_probability_evaluate_children.induct)
  case (1 nm lv hc cs)
  show ?case
  proof (intro allI impI)
    fix n'
    assume ev: "evaluate_node_probability (Node nm lv hc cs) = Inr n'"
    show "name n' = name (Node nm lv hc cs) \<and> level n' = level (Node nm lv hc cs)
       \<and> has_children n' = has_children (Node nm lv hc cs)
       \<and> (children n' = [] \<longleftrightarrow> children (Node nm lv hc cs) = [])
       \<and> tree_all estimated n'"
    proof (cases "cs = []")
      case True
      with ev have "n' = Node nm lv hc []" by simp
      then show ?thesis using True by (simp add: tree_all_Node ml_estimates_def estimated_def)
    next
      case False
      let ?s = "sum_list (map (\<lambda>c. info_count (snd c)) cs)"
      from ev False obtain cs' where
        cs': "evaluate_children ?s cs = Inr cs'" and n': "n' = Node nm lv hc cs'"
        by (auto split: sum.splits)
      from False have "length cs \<noteq> 0" by simp
      from "1.IH" [OF this] cs' False have
        nz: "?s \<noteq> 0" and cnt: "map (\<lambda>c. info_count (snd c)) cs' = map (\<lambda>c. info_count (snd c)) cs"
        and nms: "map (\<lambda>c. name (fst c)) cs' = map (\<lambda>c. name (fst c)) cs"
        and ps: "list_all (\<lambda>c. info_p (snd c) = Some (of_int (info_count (snd c)) / of_int ?s)) cs'"
        and sub: "list_all (\<lambda>c. tree_all estimated (fst c)) cs'"
        by blast+
      from nms False have ne: "cs' \<noteq> []" by auto
      from cnt have "count_sum (Node nm lv hc cs') = ?s" by (simp add: count_sum_def)
      with ps nz have "estimated (Node nm lv hc cs')"
        by (simp add: ml_estimates_def estimated_def)
      with sub n' ne False show ?thesis by (simp add: tree_all_Node)
    qed
  qed
next
  case (2 s)
  show ?case by simp
next
  case (3 s child i rest)
  show ?case
  proof (intro allI impI)
    fix cs'
    assume ev: "evaluate_children s ((child, i) # rest) = Inr cs'"
    then have s: "s \<noteq> 0" by (auto split: if_splits)
    with ev obtain child' rest' where
      c: "evaluate_node_probability child = Inr child'"
      and r: "evaluate_children s rest = Inr rest'"
      and cs': "cs' = (child', Info (info_count i) (Some (of_int (info_count i) / of_int s))) # rest'"
      by (auto split: sum.splits)
    from "3.IH"(1) [OF s] c have c1: "name child' = name child"
      and c2: "tree_all estimated child'" by blast+
    from "3.IH"(2) [OF s c] r have
      "map (\<lambda>c. info_count (snd c)) rest' = map (\<lambda>c. info_count (snd c)) rest"
      "map (\<lambda>c. name (fst c)) rest' = map (\<lambda>c. name (fst c)) rest"
      "list_all (\<lambda>c. info_p (snd c) = Some (of_int (info_count (snd c)) / of_int s)) rest'"
      "list_all (\<lambda>c. tree_all estimated (fst c)) rest'"
      by blast+
    with s c1 c2 cs' show "((child, i) # rest \<noteq> [] \<longrightarrow> s \<noteq> 0)
       \<and> map (\<lambda>c. info_count (snd c)) cs' = map (\<lambda>c. info_count (snd c)) ((child, i) # rest)
       \<and> map (\<lambda>c. name (fst c)) cs' = map (\<lambda>c. name (fst c)) ((child, i) # rest)
       \<and> list_all (\<lambda>c. info_p (snd c) = Some (of_int (info_count (snd c)) / of_int s)) cs'
       \<and> list_all (\<lambda>c. tree_all estimated (fst c)) cs'"
      by simp
  qed
qed


lemma positive_counts_map:
  "positive_counts n = (\<forall>x \<in> set (map (\<lambda>c. info_count (snd c)) (children n)). 0 < x)"
  by (simp add: positive_counts_def list_all_iff)

lemma node_inv_same_shape:
  assumes "node_inv (Node nm lv hc cs)"
    and "map (\<lambda>c. info_count (snd c)) cs' = map (\<lambda>c. info_count (snd c)) cs"
    and "map (\<lambda>c. name (fst c)) cs' = map (\<lambda>c. name (fst c)) cs"
  shows "node_inv (Node nm lv hc cs')"
proof -
  from assms(3) have "length cs' = length cs" by (rule map_eq_imp_length_eq)
  then have "(cs' = []) = (cs = [])" by auto
  with assms show ?thesis
    by (simp add: node_inv_def unique_labels_def positive_counts_map flag_ok_def)
qed

lemma evaluate_total:
  fixes n :: "'a node" and cs :: "('a node \<times> info) list"
  shows "tree_all positive_counts n \<longrightarrow> (\<exists>n'. evaluate_node_probability n = Inr n')"
  and "s \<noteq> 0 \<longrightarrow> list_all (\<lambda>c. tree_all positive_counts (fst c)) cs \<longrightarrow>
         (\<exists>cs'. evaluate_children s cs = Inr cs')"
proof (induction n and s cs rule: evaluate_node_probability_evaluate_children.induct)
  case (1 nm lv hc cs)
  show ?case
  proof
    assume pos: "tree_all positive_counts (Node nm lv hc cs)"
    show "\<exists>n'. evaluate_node_probability (Node nm lv hc cs) = Inr n'"
    proof (cases "cs = []")
      case True
      then show ?thesis by simp
    next
      case False
      let ?s = "sum_list (map (\<lambda>c. info_count (snd c)) cs)"
      from pos have "list_all (\<lambda>c. 0 < info_count (snd c)) cs"
        by (simp add: tree_all_Node positive_counts_def)
      from positive_sum [OF this False] have s: "?s \<noteq> 0" by simp
      from False have "length cs \<noteq> 0" by simp
      from "1.IH" [OF this] s pos obtain cs' where "evaluate_children ?s cs = Inr cs'"
        by (auto simp: tree_all_Node)
      with False show ?thesis by simp
    qed
  qed
next
  case (2 s)
  show ?case by simp
next
  case (3 s child i rest)
  show ?case
  proof (intro impI)
    assume s: "s \<noteq> 0"
      and pos: "list_all (\<lambda>c. tree_all positive_counts (fst c)) ((child, i) # rest)"
    from "3.IH"(1) [OF s] pos obtain child' where
      c: "evaluate_node_probability child = Inr child'" by auto
    from "3.IH"(2) [OF s c] s pos obtain rest' where
      "evaluate_children s rest = Inr rest'" by auto
    with s c show "\<exists>cs'. evaluate_children s ((child, i) # rest) = Inr cs'" by simp
  qed
qed

lemma ml_estimates_sum_one:
  assumes "ml_estimates n" and "children n \<noteq> []" and "count_sum n \<noteq> 0"
  shows "sum_probabilities (children n) = Some 1"
proof -
  from assms(1) have "sum_probabilities (children n)
      = Some (sum_list (map (\<lambda>c. of_int (info_count (snd c)) / of_int (count_sum n)) (children n)))"
    unfolding ml_estimates_def by (rule sum_probabilities_known)
  also have "\<dots> = Some (of_int (count_sum n) / of_int (count_sum n))"
    by (simp add: sum_list_quotients count_sum_def)
  finally show ?thesis using assms(3) by simp
qed


lemma estimated_sum_one:
  "estimated n \<Longrightarrow> children n \<noteq> [] \<Longrightarrow> sum_probabilities (children n) = Some 1"
  by (simp add: estimated_def ml_estimates_sum_one)

lemma evaluate_probability_estimated:
  assumes "evaluate_probability t = Inr t'"
  shows "tree_all estimated (pst_root t')"
proof -
  from assms obtain r where r: "evaluate_node_probability (pst_root t) = Inr r"
    and t': "t' = t\<lparr>pst_root := r\<rparr>"
    by (auto simp: evaluate_probability_def bind_err_eq_Inr)
  from evaluate_shape(1) [of "pst_root t"] r have "tree_all estimated r" by blast
  with t' show ?thesis by simp
qed

lemma evaluate_probability_total:
  assumes "tree_all positive_counts (pst_root t)"
  shows "\<exists>t'. evaluate_probability t = Inr t'"
proof -
  from assms evaluate_total(1) [of "pst_root t"] obtain r where
    "evaluate_node_probability (pst_root t) = Inr r" by blast
  then show ?thesis by (simp add: evaluate_probability_def)
qed

lemma lookup_named:
  "nm \<in> set (map (\<lambda>c. name (fst c)) cs) \<Longrightarrow>
   \<exists>child i. first_named nm cs = Some child \<and> name child = nm
      \<and> map_of cs child = Some i
      \<and> find (\<lambda>c. name (fst c) = nm) cs = Some (child, i)
      \<and> (child, i) \<in> set cs"
proof (induction cs)
  case Nil
  then show ?case by simp
next
  case (Cons e cs)
  obtain c j where e: "e = (c, j)" by (cases e)
  show ?case
  proof (cases "name c = nm")
    case True
    with e show ?thesis by simp
  next
    case False
    with Cons.prems e have "nm \<in> set (map (\<lambda>c. name (fst c)) cs)" by simp
    from Cons.IH [OF this] obtain child i where
      h: "first_named nm cs = Some child" "name child = nm" "map_of cs child = Some i"
        "find (\<lambda>c. name (fst c) = nm) cs = Some (child, i)" "(child, i) \<in> set cs"
      by blast
    from h(2) False have "child \<noteq> c" by auto
    with h False e show ?thesis by simp
  qed
qed

lemma find_label_absent:
  "nm \<notin> set (map (\<lambda>c. name (fst c)) cs) \<Longrightarrow> find (\<lambda>c. name (fst c) = nm) cs = None"
  by (induction cs) auto

lemma get_p_evaluated:
  "info_p i \<noteq> None \<Longrightarrow> get_p i = Inr (prob_or_zero i)"
  by (auto simp: get_p_def prob_or_zero_def)

lemma node_distance_loop_sum:
  assumes "list_all (\<lambda>c. info_p (snd c) \<noteq> None) cs" and "evaluated_opt other"
  shows "node_distance_loop cs other d
           = Inr (d + sum_list (map (spec_contribution other) cs))"
  using assms(1)
proof (induction cs arbitrary: d)
  case Nil
  show ?case by simp
next
  case (Cons e cs)
  obtain child1 info1 where e: "e = (child1, info1)" by (cases e)
  from Cons.prems e have p1: "get_p info1 = Inr (prob_or_zero info1)"
    by (simp add: get_p_evaluated)
  from Cons.prems have rest: "list_all (\<lambda>c. info_p (snd c) \<noteq> None) cs" by simp
  note IH = Cons.IH [OF rest]
  show ?case
  proof (cases other)
    case None
    with e p1 IH show ?thesis by (simp add: spec_contribution_def)
  next
    case (Some nd)
    show ?thesis
    proof (cases "name child1 \<in> set (map (\<lambda>c. name (fst c)) (children nd))")
      case True
      from lookup_named [OF True] obtain child2 info2 where
        h: "first_named (name child1) (children nd) = Some child2"
          "map_of (children nd) child2 = Some info2"
          "find (\<lambda>c. name (fst c) = name child1) (children nd) = Some (child2, info2)"
          "(child2, info2) \<in> set (children nd)"
        by blast
      from assms(2) Some h(4) have "info_p info2 \<noteq> None"
        by (auto simp: evaluated_opt_def evaluated_node_def list_all_iff)
      then have p2: "get_p info2 = Inr (prob_or_zero info2)" by (rule get_p_evaluated)
      from Some True e h p1 p2 IH show ?thesis
        by (simp add: spec_contribution_def get_child_by_name_def dict_get_def)
    next
      case False
      from find_label_absent [OF False] Some False e p1 IH show ?thesis
        by (simp add: spec_contribution_def)
    qed
  qed
qed

lemma first_named_append:
  "first_named nm cs = Some c \<Longrightarrow> first_named nm (cs @ extra) = Some c"
  by (induction nm cs rule: first_named.induct) (simp_all split: if_splits)

lemma node_distance_loop_unmatched:
  assumes "\<forall>c \<in> set extra. name (fst c) \<notin> set (map (\<lambda>c. name (fst c)) cs1)"
  shows "node_distance_loop cs1 (Some (Node nm lv hc (cs @ extra))) d
           = node_distance_loop cs1 (Some (Node nm lv hc cs)) d"
  using assms
proof (induction cs1 arbitrary: d)
  case Nil
  show ?case by simp
next
  case (Cons e cs1)
  obtain child1 info1 where e: "e = (child1, info1)" by (cases e)
  from Cons.prems e have ex: "name child1 \<notin> set (map (\<lambda>c. name (fst c)) extra)"
    by auto
  from Cons.prems have "\<forall>c \<in> set extra. name (fst c) \<notin> set (map (\<lambda>c. name (fst c)) cs1)"
    by auto
  note IH = Cons.IH [OF this]
  show ?case
  proof (cases "name child1 \<in> set (map (\<lambda>c. name (fst c)) cs)")
    case True
    from lookup_named [OF True] obtain child2 info2 where
      h: "first_named (name child1) cs = Some child2" "map_of cs child2 = Some info2"
      by blast
    from h(2) have "map_of (cs @ extra) child2 = Some info2"
      by (simp add: map_add_Some_iff)
    with True h e IH first_named_append [OF h(1), of extra] show ?thesis
      by (simp add: get_child_by_name_def dict_get_def)
  next
    case False
    with ex e IH show ?thesis by simp
  qed
qed

lemma unique_child_lookup:
  assumes "unique_labels N" and "(c, i) \<in> set (children N)"
  shows "get_child_by_name N (name c) = Some c"
    and "find (\<lambda>c2. name (fst c2) = name c) (children N) = Some (c, i)"
proof -
  from assms(2) have "name c \<in> set (map (\<lambda>c. name (fst c)) (children N))" by force
  from lookup_named [OF this] obtain child j where
    h: "first_named (name c) (children N) = Some child" "name child = name c"
      "find (\<lambda>c2. name (fst c2) = name c) (children N) = Some (child, j)"
      "(child, j) \<in> set (children N)"
    by blast
  from assms(1) have "inj_on (\<lambda>c. name (fst c)) (set (children N))"
    by (simp add: unique_labels_def distinct_map)
  from inj_onD [OF this _ h(4) assms(2)] h(2) have "(child, j) = (c, i)" by simp
  with h show "get_child_by_name N (name c) = Some c"
    and "find (\<lambda>c2. name (fst c2) = name c) (children N) = Some (c, i)"
    by (simp_all add: get_child_by_name_def)
qed

lemma sum_list_zero: "(\<forall>x \<in> set xs. f x = (0::rat)) \<Longrightarrow> sum_list (map f xs) = 0"
  by (induction xs) simp_all

lemma node_self_distance:
  assumes "evaluated_node n" and "unique_labels n"
  shows "node_get_node_distance n (Some n) = Inr 0"
proof -
  from assms(1) have ev: "list_all (\<lambda>c. info_p (snd c) \<noteq> None) (children n)"
    by (simp add: evaluated_node_def)
  from assms(1) have evo: "evaluated_opt (Some n)" by (simp add: evaluated_opt_def)
  have "\<forall>c \<in> set (children n). spec_contribution (Some n) c = 0"
  proof
    fix c assume "c \<in> set (children n)"
    then have "(fst c, snd c) \<in> set (children n)" by simp
    from unique_child_lookup(2) [OF assms(2) this]
    show "spec_contribution (Some n) c = 0" by (simp add: spec_contribution_def)
  qed
  then have "sum_list (map (spec_contribution (Some n)) (children n)) = 0"
    by (rule sum_list_zero)
  with node_distance_loop_sum [OF ev evo, of 0] show ?thesis
    by (simp add: node_get_node_distance_def)
qed

lemma pst_self_distance:
  "tree_all evaluated_node n \<Longrightarrow> tree_all unique_labels n \<Longrightarrow>
   pst_get_node_distance n (Some n) d = Inr d"
proof (induction n arbitrary: d)
  case (Node nm lv hc cs)
  let ?N = "Node nm lv hc cs"
  from Node.prems have evN: "evaluated_node ?N" and uN: "unique_labels ?N"
    by (auto dest: tree_all_root)
  have children: "pst_get_node_distance c (Some c) d' = Inr d'"
    if "(c, i) \<in> set cs" for c i d'
  proof -
    from that Node.prems have "tree_all evaluated_node c" "tree_all unique_labels c"
      by (auto dest: tree_all_child)
    with Node.IH [of "(c, i)" c d'] that show ?thesis by simp
  qed
  have loop: "pst_distance_loop ys (Some ?N) d' = Inr d'" if "set ys \<subseteq> set cs" for ys d'
    using that
  proof (induction ys arbitrary: d')
    case Nil
    show ?case by simp
  next
    case (Cons e ys)
    obtain c i where e: "e = (c, i)" by (cases e)
    with Cons.prems have mem: "(c, i) \<in> set (children ?N)" by simp
    then have nm: "name c \<in> set (map (\<lambda>c. name (fst c)) cs)" by force
    from unique_child_lookup(1) [OF uN mem]
    have g: "get_child_by_name ?N (name c) = Some c" .
    from mem have "pst_get_node_distance c (Some c) d' = Inr d'"
      by (simp add: children)
    moreover from Cons.prems have "pst_distance_loop ys (Some ?N) d' = Inr d'"
      by (intro Cons.IH) simp
    ultimately show ?case using e nm g by simp
  qed
  show ?case
  proof (cases hc)
    case False
    then show ?thesis by simp
  next
    case True
    from node_self_distance [OF evN uN] True loop [of cs d] show ?thesis by simp
  qed
qed

lemma name_Node_init [simp]: "name (Node_init parent nm) = nm"
  by (simp add: Node_init_def)

lemma children_Node_init [simp]: "children (Node_init parent nm) = []"
  by (simp add: Node_init_def)

lemma node_inv_Node_init: "tree_all node_inv (Node_init parent nm)"
  by (simp add: Node_init_def tree_all_Node node_inv_def unique_labels_def
      positive_counts_def flag_ok_def)

lemma name_set_child [simp]: "name (set_child self c) = name self"
  by (simp add: set_child_def)

lemma add_subchain_loop_name: "name (add_subchain_loop nd es) = name nd"
  by (cases es) (simp_all add: add_child_def split: option.splits)

lemma init_loop_name: "name (init_loop nd es) = name nd"
  by (cases es) (simp_all add: add_child_def Let_def split: option.splits)

lemma add_subchain_loop_new:
  assumes "get_child_by_name nd e = None"
  shows "add_subchain_loop nd (e # rest)
    = Node (name nd) (level nd) True
        (children nd @ [(add_subchain_loop (Node_init (Some nd) e) rest, Info 1 None)])"
proof -
  let ?cand = "Node_init (Some nd) e"
  let ?R = "add_subchain_loop ?cand rest"
  from assms have ab: "e \<notin> set (map (\<lambda>c. name (fst c)) (children nd))"
    by (simp add: get_child_by_name_def first_named_None)
  have nR: "name ?R = e" by (simp add: add_subchain_loop_name)
  from ab nR have "replace_named ?R (children nd @ (?cand, Info 1 None) # [])
      = children nd @ (?R, Info 1 None) # []"
    by (intro replace_named_split) simp_all
  with assms show ?thesis
    by (simp add: add_child_def set_child_def)
qed

lemma add_subchain_loop_found:
  assumes "get_child_by_name nd e = Some child"
  shows "\<exists>pre i post. children nd = pre @ (child, i) # post
      \<and> e \<notin> set (map (\<lambda>c. name (fst c)) pre) \<and> name child = e
      \<and> add_subchain_loop nd (e # rest)
        = Node (name nd) (level nd) True
            (pre @ (add_subchain_loop child rest, Info (info_count i + 1) (info_p i)) # post)"
proof -
  let ?R = "add_subchain_loop child rest"
  from assms have "first_named e (children nd) = Some child"
    by (simp add: get_child_by_name_def)
  from first_named_Some_split [OF this] obtain pre i post where
    sp: "children nd = pre @ (child, i) # post"
      "e \<notin> set (map (\<lambda>c. name (fst c)) pre)" "name child = e"
    by blast
  let ?i' = "Info (info_count i + 1) (info_p i)"
  from sp have inc: "incr_count child (children nd) = pre @ (child, ?i') # post"
    by (simp add: incr_count_split)
  have nR: "name ?R = e" using sp(3) by (simp add: add_subchain_loop_name)
  from sp nR have "replace_named ?R (pre @ (child, ?i') # post) = pre @ (?R, ?i') # post"
    by (intro replace_named_split) simp_all
  with assms inc have "add_subchain_loop nd (e # rest)
      = Node (name nd) (level nd) True (pre @ (?R, ?i') # post)"
    by (simp add: add_child_def set_child_def)
  with sp show ?thesis by blast
qed

lemma add_subchain_loop_inv:
  "tree_all node_inv nd \<Longrightarrow> tree_all node_inv (add_subchain_loop nd es)"
proof (induction es arbitrary: nd)
  case Nil
  then show ?case by simp
next
  case (Cons e rest)
  from Cons.prems have root: "node_inv nd" by (rule tree_all_root)
  from Cons.prems have sub: "\<forall>c \<in> set (children nd). tree_all node_inv (fst c)"
    by (auto dest: tree_all_child)
  show ?case
  proof (cases "get_child_by_name nd e")
    case None
    let ?R = "add_subchain_loop (Node_init (Some nd) e) rest"
    from None have ab: "e \<notin> set (map (\<lambda>c. name (fst c)) (children nd))"
      by (simp add: get_child_by_name_def first_named_None)
    have R: "tree_all node_inv ?R" by (intro Cons.IH node_inv_Node_init)
    have nR: "name ?R = e" by (simp add: add_subchain_loop_name)
    from root ab nR have "node_inv (Node (name nd) (level nd) True
        (children nd @ [(?R, Info 1 None)]))"
      by (simp add: node_inv_def unique_labels_def positive_counts_def flag_ok_def)
    with sub R show ?thesis
      unfolding add_subchain_loop_new [OF None] by (simp add: tree_all_Node list_all_iff)
  next
    case (Some child)
    from add_subchain_loop_found [OF Some, of rest] obtain pre i post where
      sp: "children nd = pre @ (child, i) # post" "name child = e"
        "add_subchain_loop nd (e # rest)
          = Node (name nd) (level nd) True
              (pre @ (add_subchain_loop child rest, Info (info_count i + 1) (info_p i)) # post)"
      by blast
    let ?R = "add_subchain_loop child rest"
    from sub sp(1) have "tree_all node_inv child" by simp
    then have R: "tree_all node_inv ?R" by (rule Cons.IH)
    have nR: "name ?R = name child" by (simp add: add_subchain_loop_name)
    from root sp(1) nR have "node_inv (Node (name nd) (level nd) True
        (pre @ (?R, Info (info_count i + 1) (info_p i)) # post))"
      by (simp add: node_inv_def unique_labels_def positive_counts_def flag_ok_def)
    with sub R sp(1) show ?thesis
      unfolding sp(3) by (simp add: tree_all_Node list_all_iff)
  qed
qed

lemma init_loop_fresh:
  "init_loop (Node nm lv False []) (e # rest)
     = Node nm lv True [(init_loop (Node e (lv + 1) False []) rest, Info 1 None)]"
  by (simp add: Let_def get_child_by_name_def add_child_def set_child_def Node_init_def
      init_loop_name)

lemma init_loop_inv: "tree_all node_inv (init_loop (Node nm lv False []) es)"
proof (induction es arbitrary: nm lv)
  case Nil
  show ?case
    by (simp add: tree_all_Node node_inv_def unique_labels_def positive_counts_def flag_ok_def)
next
  case (Cons e rest)
  have "node_inv (Node nm lv True [(init_loop (Node e (lv + 1) False []) rest, Info 1 None)])"
    by (simp add: node_inv_def unique_labels_def positive_counts_def flag_ok_def)
  with Cons.IH [of e "lv + 1"] show ?case
    unfolding init_loop_fresh by (simp add: tree_all_Node)
qed

lemma PST_init_inv:
  "PST_init chain = Inr t \<Longrightarrow> tree_all node_inv (pst_root t)"
  by (cases chain) (auto simp: PST_init_def Node_init_def init_loop_inv)

lemma add_subchain_inv:
  "tree_all node_inv (pst_root t) \<Longrightarrow> tree_all node_inv (pst_root (add_subchain t c))"
  by (simp add: add_subchain_def add_subchain_loop_inv)

lemma node_inv_parts:
  "tree_all node_inv r \<Longrightarrow> tree_all unique_labels r"
  "tree_all node_inv r \<Longrightarrow> tree_all positive_counts r"
  "tree_all node_inv r \<Longrightarrow> tree_all flag_ok r"
  by (auto simp: tree_all_def list_all_iff node_inv_def)

lemma evaluate_preserves:
  fixes n :: "'a node" and cs :: "('a node \<times> info) list"
  assumes shape: "\<And>nm lv hc cs cs'. P (Node nm lv hc cs) \<Longrightarrow>
      map (\<lambda>c. info_count (snd c)) cs' = map (\<lambda>c. info_count (snd c)) cs \<Longrightarrow>
      map (\<lambda>c. name (fst c)) cs' = map (\<lambda>c. name (fst c)) cs \<Longrightarrow> P (Node nm lv hc cs')"
  shows "(\<forall>n'. evaluate_node_probability n = Inr n' \<longrightarrow> tree_all P n \<longrightarrow> tree_all P n')"
  and "(\<forall>cs'. evaluate_children s cs = Inr cs' \<longrightarrow>
            list_all (\<lambda>c. tree_all P (fst c)) cs \<longrightarrow>
            list_all (\<lambda>c. tree_all P (fst c)) cs')"
proof (induction n and s cs rule: evaluate_node_probability_evaluate_children.induct)
  case (1 nm lv hc cs)
  show ?case
  proof (intro allI impI)
    fix n'
    assume ev: "evaluate_node_probability (Node nm lv hc cs) = Inr n'"
      and inv: "tree_all P (Node nm lv hc cs)"
    show "tree_all P n'"
    proof (cases "cs = []")
      case True
      with ev inv show ?thesis by simp
    next
      case False
      let ?s = "sum_list (map (\<lambda>c. info_count (snd c)) cs)"
      from ev False obtain cs' where
        cs': "evaluate_children ?s cs = Inr cs'" and n': "n' = Node nm lv hc cs'"
        by (auto split: sum.splits)
      from False have "length cs \<noteq> 0" by simp
      from "1.IH" [OF this] cs' inv
      have sub: "list_all (\<lambda>c. tree_all P (fst c)) cs'"
        by (simp add: tree_all_Node)
      from evaluate_shape(2) [of ?s cs] cs' have
        "map (\<lambda>c. info_count (snd c)) cs' = map (\<lambda>c. info_count (snd c)) cs"
        "map (\<lambda>c. name (fst c)) cs' = map (\<lambda>c. name (fst c)) cs"
        by blast+
      with inv have "P (Node nm lv hc cs')"
        by (auto simp: tree_all_Node intro: shape)
      with sub n' show ?thesis by (simp add: tree_all_Node)
    qed
  qed
next
  case (2 s)
  show ?case by simp
next
  case (3 s child i rest)
  show ?case
  proof (intro allI impI)
    fix cs'
    assume ev: "evaluate_children s ((child, i) # rest) = Inr cs'"
      and inv: "list_all (\<lambda>c. tree_all P (fst c)) ((child, i) # rest)"
    from ev have s: "s \<noteq> 0" by (auto split: if_splits)
    with ev obtain child' rest' where
      c: "evaluate_node_probability child = Inr child'"
      and r: "evaluate_children s rest = Inr rest'"
      and cs': "cs' = (child', Info (info_count i) (Some (of_int (info_count i) / of_int s))) # rest'"
      by (auto split: sum.splits)
    from "3.IH"(1) [OF s] c inv have "tree_all P child'" by simp
    moreover from "3.IH"(2) [OF s c] r inv
    have "list_all (\<lambda>c. tree_all P (fst c)) rest'" by simp
    ultimately show "list_all (\<lambda>c. tree_all P (fst c)) cs'"
      using cs' by simp
  qed
qed

lemma evaluate_preserves_unique_labels:
  assumes "evaluate_probability t = Inr t'" and "tree_all unique_labels (pst_root t)"
  shows "tree_all unique_labels (pst_root t')"
proof -
  from assms(1) obtain r where r: "evaluate_node_probability (pst_root t) = Inr r"
    and t': "t' = t\<lparr>pst_root := r\<rparr>"
    by (auto simp: evaluate_probability_def bind_err_eq_Inr)
  have "\<forall>n'. evaluate_node_probability (pst_root t) = Inr n' \<longrightarrow>
      tree_all unique_labels (pst_root t) \<longrightarrow> tree_all unique_labels n'"
    by (rule evaluate_preserves(1)) (simp add: unique_labels_def)
  with r assms(2) t' show ?thesis by simp
qed

lemma tree_all_mono: "(\<And>n. P n \<Longrightarrow> Q n) \<Longrightarrow> tree_all P r \<Longrightarrow> tree_all Q r"
  by (auto simp: tree_all_def list_all_iff)

lemma estimated_evaluated: "estimated n \<Longrightarrow> evaluated_node n"
  by (auto simp: estimated_def ml_estimates_def evaluated_node_def list_all_iff)

lemma evaluate_probability_evaluated:
  "evaluate_probability t = Inr t' \<Longrightarrow> tree_all evaluated_node (pst_root t')"
  using evaluate_probability_estimated estimated_evaluated tree_all_mono by blast

lemma fold_add_subchain_inv:
  "tree_all node_inv (pst_root t) \<Longrightarrow>
   tree_all node_inv (pst_root (fold (\<lambda>c u. add_subchain u c) cs t))"
  by (induction cs arbitrary: t) (simp_all add: add_subchain_inv)

lemma child_lookup_evaluated:
  assumes "evaluated_node nd" and "get_child_by_name nd e = Some c"
  shows "\<exists>i q. dict_get (children nd) c = Inr i \<and> get_p i = Inr q
           \<and> (c, i) \<in> set (children nd)"
proof -
  from assms(2) have "first_named e (children nd) = Some c"
    by (simp add: get_child_by_name_def)
  from first_named_Some_split [OF this] obtain pre i post where
    sp: "children nd = pre @ (c, i) # post"
      "e \<notin> set (map (\<lambda>c. name (fst c)) pre)" "name c = e"
    by blast
  from sp(2,3) have "name c \<notin> set (map (\<lambda>c. name (fst c)) pre)" by simp
  from map_of_split [OF this, of i post] sp(1)
  have m: "map_of (children nd) c = Some i" by simp
  from assms(1) sp(1) have "info_p i \<noteq> None"
    by (simp add: evaluated_node_def)
  then have "get_p i = Inr (prob_or_zero i)" by (rule get_p_evaluated)
  with m sp(1) show ?thesis by (simp add: dict_get_def)
qed

lemma event_walk_step:
  assumes "tree_all evaluated_node nd" and "get_child_by_name nd e = Some c"
  shows "tree_all evaluated_node c
     \<and> (\<exists>q. event_walk nd prob (e # rest) = event_walk c (prob * q) rest)"
proof -
  from assms(1) have "evaluated_node nd" by (rule tree_all_root)
  from child_lookup_evaluated [OF this assms(2)] obtain i q where
    h: "dict_get (children nd) c = Inr i" "get_p i = Inr q" "(c, i) \<in> set (children nd)"
    by blast
  from tree_all_child [OF assms(1) h(3)] have "tree_all evaluated_node c" by simp
  moreover from assms(2) h have "event_walk nd prob (e # rest) = event_walk c (prob * q) rest"
    by simp
  ultimately show ?thesis by blast
qed

lemma event_walk_total:
  "tree_all evaluated_node nd \<Longrightarrow> \<exists>q. event_walk nd prob w = Inr (Num q)"
proof (induction w arbitrary: nd prob)
  case Nil
  show ?case by simp
next
  case (Cons e w)
  show ?case
  proof (cases "get_child_by_name nd e")
    case None
    then show ?thesis by simp
  next
    case (Some c)
    from event_walk_step [OF Cons.prems Some, of prob w] obtain q where
      "tree_all evaluated_node c" "event_walk nd prob (e # w) = event_walk c (prob * q) w"
      by blast
    with Cons.IH [of c "prob * q"] show ?thesis by simp
  qed
qed

lemma event_walk_unmatched:
  "tree_all evaluated_node nd \<Longrightarrow> descend nd pre = Some k \<Longrightarrow>
   get_child_by_name k e = None \<Longrightarrow> event_walk nd prob (pre @ e # post) = Inr (Num 0)"
proof (induction pre arbitrary: nd prob)
  case Nil
  then show ?case by simp
next
  case (Cons a pre)
  from Cons.prems(2) obtain c where c: "get_child_by_name nd a = Some c"
    and d: "descend c pre = Some k"
    by (auto split: option.splits)
  from event_walk_step [OF Cons.prems(1) c, of prob "pre @ e # post"] obtain q where
    "tree_all evaluated_node c"
    "event_walk nd prob (a # pre @ e # post) = event_walk c (prob * q) (pre @ e # post)"
    by blast
  with Cons.IH [OF _ d Cons.prems(3), of "prob * q"] show ?case by simp
qed

lemma get_PST_by_name_mem: "get_PST_by_name m x = Some t \<Longrightarrow> t \<in> set (trees m)"
  by (auto simp: get_PST_by_name_def find_Some_iff)

lemma get_event_prob_total:
  assumes "model_evaluated m" and "w \<noteq> [] \<or> int (length w) \<noteq> model_depth m"
  shows "\<exists>v. get_event_prob m w = Inr v"
proof (cases "int (length w) \<noteq> model_depth m")
  case True
  then show ?thesis by (simp add: get_event_prob_def)
next
  case False
  with assms(2) obtain x rest where w: "w = x # rest" by (cases w) auto
  show ?thesis
  proof (cases "get_PST_by_name m x")
    case None
    with False w show ?thesis by (simp add: get_event_prob_def)
  next
    case (Some t)
    from get_PST_by_name_mem [OF Some] assms(1) have "tree_all evaluated_node (pst_root t)"
      by (simp add: model_evaluated_def list_all_iff)
    from event_walk_total [OF this, of 1 rest] Some False w show ?thesis
      by (auto simp: get_event_prob_def)
  qed
qed

lemma event_probs_total:
  assumes "model_evaluated m"
    and "\<forall>w \<in> set ws. w \<noteq> [] \<or> int (length w) \<noteq> model_depth m"
  shows "\<exists>vs. event_probs m ws = Inr vs \<and> map Inr vs = map (get_event_prob m) ws"
  using assms(2)
proof (induction ws)
  case Nil
  show ?case by simp
next
  case (Cons w ws)
  from Cons.prems have "w \<noteq> [] \<or> int (length w) \<noteq> model_depth m" by simp
  from get_event_prob_total [OF assms(1) this] obtain v where
    v: "get_event_prob m w = Inr v" by blast
  from Cons.prems have "\<forall>w \<in> set ws. w \<noteq> [] \<or> int (length w) \<noteq> model_depth m" by simp
  from Cons.IH [OF this] obtain vs where
    "event_probs m ws = Inr vs" "map Inr vs = map (get_event_prob m) ws" by blast
  with v show ?case by simp
qed

lemma get_subchains_take_drop:
  assumes "0 \<le> model_depth m"
  shows "get_subchains m chain
    = map (\<lambda>i. take (nat (model_depth m)) (drop i chain))
        [0 ..< nat (int (length chain) - model_depth m)]"
  by (simp add: get_subchains_def py_slice_window [OF assms])

lemma get_subchains_window_length:
  assumes "0 \<le> model_depth m" and "w \<in> set (get_subchains m chain)"
  shows "length w = nat (model_depth m)"
proof -
  from assms(2) obtain i where i: "i < nat (int (length chain) - model_depth m)"
    and w: "w = take (nat (model_depth m)) (drop i chain)"
    unfolding get_subchains_take_drop [OF assms(1)] by auto
  from i assms(1) have "nat (model_depth m) \<le> length chain - i" by linarith
  with w show ?thesis by simp
qed

lemma evaluate_trees_evaluated:
  "evaluate_trees ts = Inr ts' \<Longrightarrow>
   list_all (\<lambda>t. tree_all evaluated_node (pst_root t)) ts'"
proof (induction ts arbitrary: ts')
  case Nil
  then show ?case by simp
next
  case (Cons t ts)
  from Cons.prems obtain t' rest' where
    t': "evaluate_probability t = Inr t'" and r: "evaluate_trees ts = Inr rest'"
    and e: "ts' = t' # rest'"
    by (auto simp: bind_err_eq_Inr)
  from evaluate_probability_evaluated [OF t'] Cons.IH [OF r] e show ?case by simp
qed

lemma fit_loop_depth: "fit_loop m ws = Inr m' \<Longrightarrow> model_depth m' = model_depth m"
proof (induction ws arbitrary: m)
  case Nil
  then show ?case by simp
next
  case (Cons w ws)
  from Cons.prems obtain m1 where s: "fit_step m w = Inr m1" and l: "fit_loop m1 ws = Inr m'"
    by (auto simp: bind_err_eq_Inr)
  from s have "model_depth m1 = model_depth m"
    by (auto simp: fit_step_def bind_err_eq_Inr split: list.splits option.splits)
  with Cons.IH [OF l] show ?case by simp
qed

lemma fit_evaluated:
  assumes "fit m chain = Inr m'"
  shows "model_evaluated m'" and "model_depth m' = model_depth m"
proof -
  from assms obtain m1 ts where l: "fit_loop m (get_subchains m chain) = Inr m1"
    and e: "evaluate_trees (trees m1) = Inr ts" and m': "m' = m1\<lparr>trees := ts\<rparr>"
    by (auto simp: fit_def fit_windows_def bind_err_eq_Inr)
  from evaluate_trees_evaluated [OF e] m' show "model_evaluated m'"
    by (simp add: model_evaluated_def)
  from fit_loop_depth [OF l] m' show "model_depth m' = model_depth m" by simp
qed

lemma scenario_fit_loop:
  "fit_loop (PST_model_init 3) [[''A'', ''B'', ''C''], [''A'', ''B'', ''D''], [''A'', ''B'', ''C'']]
     = Inr \<lparr>model_depth = 3,
            trees = [\<lparr>pst_root = Node ''A'' 0 True
                        [(Node ''B'' 1 True
                            [(Node ''C'' 2 False [], Info 2 None),
                             (Node ''D'' 2 False [], Info 1 None)], Info 3 None)],
                      pst_name = ''A'', pst_depth = 3, pst_power = 2\<rparr>]\<rparr>"
  by (simp add: fit_step_def get_PST_by_name_def PST_model_init_def PST_init_def
      Node_init_def Let_def add_child_def get_child_by_name_def set_child_def
      add_subchain_def)

lemma scenario_fit_windows:
  "fit_windows (PST_model_init 3)
     [[''A'', ''B'', ''C''], [''A'', ''B'', ''D''], [''A'', ''B'', ''C'']] = Inr scenario_model"
  unfolding fit_windows_def scenario_fit_loop
  by (simp add: evaluate_probability_def scenario_model_def scenario_tree_def scenario_B_def)

section \<open>The windows of a sequence\<close>

text \<open>
  C6. \<open>_get_subchains\<close> on a sequence of length \<open>L\<close> with depth \<open>d\<close> returns exactly
  \<open>max (L - d) 0\<close> windows, the \<open>i\<close>-th being the slice \<open>chain[i : i + d]\<close>; for a depth
  \<open>d \<ge> 0\<close> that slice is the \<open>d\<close> elements from index \<open>i\<close> on and has length \<open>d\<close>. A
  sequence with \<open>L \<le> d\<close> gives no window (the function has no failing path), and for
  \<open>0 \<le> d \<le> L\<close> the result is the complete list of length-\<open>d\<close> windows without its
  last one, the window that starts at \<open>L - d\<close> and ends at the last element.
\<close>

theorem get_subchains_windows:
  "length (get_subchains m chain) = nat (max (int (length chain) - model_depth m) 0)
   \<and> (\<forall>i < length (get_subchains m chain).
         get_subchains m chain ! i = py_slice chain (int i) (int i + model_depth m))
   \<and> (0 \<le> model_depth m \<longrightarrow>
        (\<forall>i < length (get_subchains m chain).
           get_subchains m chain ! i = take (nat (model_depth m)) (drop i chain)
           \<and> length (get_subchains m chain ! i) = nat (model_depth m)))
   \<and> (int (length chain) \<le> model_depth m \<longrightarrow> get_subchains m chain = [])
   \<and> (0 \<le> model_depth m \<and> model_depth m \<le> int (length chain) \<longrightarrow>
        get_subchains m chain = butlast (all_windows (nat (model_depth m)) chain)
        \<and> last (all_windows (nat (model_depth m)) chain)
            = drop (length chain - nat (model_depth m)) chain)"
proof -
  let ?d = "model_depth m"
  let ?n = "nat (int (length chain) - ?d)"
  have len: "length (get_subchains m chain) = ?n"
    by (simp add: get_subchains_def)
  have nth: "get_subchains m chain ! i = py_slice chain (int i) (int i + ?d)"
    if "i < ?n" for i
    using that by (simp add: get_subchains_def)
  have c1: "length (get_subchains m chain) = nat (max (int (length chain) - ?d) 0)"
    using len by (simp add: max_def)
  have c2: "\<forall>i < length (get_subchains m chain).
              get_subchains m chain ! i = py_slice chain (int i) (int i + ?d)"
    using len nth by simp
  have c3: "0 \<le> ?d \<longrightarrow>
        (\<forall>i < length (get_subchains m chain).
           get_subchains m chain ! i = take (nat ?d) (drop i chain)
           \<and> length (get_subchains m chain ! i) = nat ?d)"
  proof (intro impI allI)
    fix i
    assume d: "0 \<le> ?d" and i: "i < length (get_subchains m chain)"
    from i len have i': "i < ?n" by simp
    have eq: "get_subchains m chain ! i = take (nat ?d) (drop i chain)"
      using nth [OF i'] py_slice_window [OF d] by simp
    from i' d have "nat ?d \<le> length chain - i" by linarith
    with eq show "get_subchains m chain ! i = take (nat ?d) (drop i chain)
        \<and> length (get_subchains m chain ! i) = nat ?d"
      by simp
  qed
  have c4: "int (length chain) \<le> ?d \<longrightarrow> get_subchains m chain = []"
    by (simp add: get_subchains_def)
  have c5: "0 \<le> ?d \<and> ?d \<le> int (length chain) \<longrightarrow>
        get_subchains m chain = butlast (all_windows (nat ?d) chain)
        \<and> last (all_windows (nat ?d) chain) = drop (length chain - nat ?d) chain"
  proof (intro impI, elim conjE)
    assume d: "0 \<le> ?d" and dl: "?d \<le> int (length chain)"
    from d dl have n: "?n = length chain - nat ?d" by linarith
    have "get_subchains m chain = map (\<lambda>i. take (nat ?d) (drop i chain)) [0 ..< ?n]"
      by (simp add: get_subchains_def py_slice_window [OF d])
    moreover have "butlast (all_windows (nat ?d) chain)
        = map (\<lambda>i. take (nat ?d) (drop i chain)) [0 ..< length chain - nat ?d]"
      by (simp add: all_windows_def map_butlast [symmetric])
    moreover have "last (all_windows (nat ?d) chain) = drop (length chain - nat ?d) chain"
      using d dl by (simp add: all_windows_def last_map)
    ultimately show "get_subchains m chain = butlast (all_windows (nat ?d) chain)
        \<and> last (all_windows (nat ?d) chain) = drop (length chain - nat ?d) chain"
      using n by simp
  qed
  from c1 c2 c3 c4 c5 show ?thesis by blast
qed

theorem get_subchains_windows_witness:
  "0 \<le> model_depth (PST_model_init 2 :: string pst_model)
   \<and> model_depth (PST_model_init 2 :: string pst_model)
       \<le> int (length [''A'', ''B'', ''C'', ''D''])
   \<and> get_subchains (PST_model_init 2) [''A'', ''B'', ''C'', ''D'']
       = butlast (all_windows 2 [''A'', ''B'', ''C'', ''D''])
   \<and> get_subchains (PST_model_init 2) [''A'', ''B'', ''C'', ''D'']
       = [[''A'', ''B''], [''B'', ''C'']]
   \<and> last (all_windows 2 [''A'', ''B'', ''C'', ''D'']) = [''C'', ''D'']"
proof -
  have d: "model_depth (PST_model_init 2 :: string pst_model) = 2"
    by (simp add: PST_model_init_def)
  have w: "all_windows 2 [''A'', ''B'', ''C'', ''D'']
      = [[''A'', ''B''], [''B'', ''C''], [''C'', ''D'']]"
    by (simp add: all_windows_def upt_rec)
  show ?thesis
    using get_subchains_windows [of "PST_model_init 2" "[''A'', ''B'', ''C'', ''D'']"]
    by (simp add: d w)
qed

section \<open>Absorbing a chain\<close>

text \<open>
  C9. \<open>add_subchain\<close> never reads the first element of the chain: two chains that
  agree after their first element (\<open>c[1:] = c'[1:]\<close>) take every tree to the same
  tree, with the same structure, counts and \<open>power\<close>. No comparison with the name of
  the root is made, so a chain given to the wrong tree is merged like one that starts
  with the root's name.
\<close>

theorem add_subchain_ignores_first_element:
  assumes "drop 1 c = drop 1 c'"
  shows "add_subchain t c = add_subchain t c'"
  using assms by (simp add: add_subchain_def)

theorem add_subchain_ignores_first_element_witness:
  "drop 1 [''Z'', ''B'', ''D''] = drop 1 [''A'', ''B'', ''D'']
   \<and> add_subchain
         \<lparr>pst_root = Node ''A'' 0 True
             [(Node ''B'' 1 True [(Node ''C'' 2 False [], Info 1 None)], Info 1 None)],
          pst_name = ''A'', pst_depth = 3, pst_power = 0\<rparr> [''Z'', ''B'', ''D'']
       = add_subchain
         \<lparr>pst_root = Node ''A'' 0 True
             [(Node ''B'' 1 True [(Node ''C'' 2 False [], Info 1 None)], Info 1 None)],
          pst_name = ''A'', pst_depth = 3, pst_power = 0\<rparr> [''A'', ''B'', ''D'']
   \<and> add_subchain
         \<lparr>pst_root = Node ''A'' 0 True
             [(Node ''B'' 1 True [(Node ''C'' 2 False [], Info 1 None)], Info 1 None)],
          pst_name = ''A'', pst_depth = 3, pst_power = 0\<rparr> [''Z'', ''B'', ''D'']
       = \<lparr>pst_root = Node ''A'' 0 True
             [(Node ''B'' 1 True [(Node ''C'' 2 False [], Info 1 None),
                                  (Node ''D'' 2 False [], Info 1 None)], Info 2 None)],
          pst_name = ''A'', pst_depth = 3, pst_power = 1\<rparr>"
proof -
  have h: "drop 1 [''Z'', ''B'', ''D''] = drop 1 [''A'', ''B'', ''D'']" by simp
  show ?thesis
    using h add_subchain_ignores_first_element [OF h]
    by (simp add: add_subchain_def add_child_def get_child_by_name_def Node_init_def
        set_child_def)
qed

section \<open>The probability of a window\<close>

text \<open>
  C10. With depth 1, a window \<open>[x]\<close> whose first element names a tree of the model has
  probability exactly 1, whatever the tree holds: the running product starts at 1 and
  the loop over \<open>subchain[1:]\<close> has nothing to consume.
\<close>

theorem trivial_walk_probability_one:
  assumes "model_depth m = 1" and "get_PST_by_name m x = Some t"
  shows "get_event_prob m [x] = Inr (Num 1)"
  using assms by (simp add: get_event_prob_def)

theorem trivial_walk_probability_one_witness:
  "fit (PST_model_init 1) [''A'', ''B'']
     = Inr \<lparr>model_depth = 1,
            trees = [\<lparr>pst_root = Node ''A'' 0 False [], pst_name = ''A'',
                      pst_depth = 1, pst_power = 0\<rparr>]\<rparr>
   \<and> model_depth \<lparr>model_depth = 1,
            trees = [\<lparr>pst_root = Node ''A'' 0 False [], pst_name = ''A'',
                      pst_depth = 1, pst_power = 0\<rparr>]\<rparr> = 1
   \<and> get_PST_by_name \<lparr>model_depth = 1,
            trees = [\<lparr>pst_root = Node ''A'' 0 False [], pst_name = ''A'',
                      pst_depth = 1, pst_power = 0\<rparr>]\<rparr> ''A''
       = Some \<lparr>pst_root = Node ''A'' 0 False [], pst_name = ''A'',
                pst_depth = 1, pst_power = 0\<rparr>
   \<and> get_event_prob \<lparr>model_depth = 1,
            trees = [\<lparr>pst_root = Node ''A'' 0 False [], pst_name = ''A'',
                      pst_depth = 1, pst_power = 0\<rparr>]\<rparr> [''A''] = Inr (Num 1)"
proof -
  let ?t = "\<lparr>pst_root = Node ''A'' 0 False [], pst_name = ''A'',
             pst_depth = 1, pst_power = 0\<rparr>"
  let ?m = "\<lparr>model_depth = 1, trees = [?t]\<rparr>"
  have f: "fit (PST_model_init 1) [''A'', ''B''] = Inr ?m"
    by (simp add: fit_def fit_windows_def get_subchains_def PST_model_init_def py_slice_def
        fit_step_def get_PST_by_name_def PST_init_def Node_init_def evaluate_probability_def)
  have d: "model_depth ?m = 1" by simp
  have g: "get_PST_by_name ?m ''A'' = Some ?t" by (simp add: get_PST_by_name_def)
  from f d g trivial_walk_probability_one [OF d g] show ?thesis by simp
qed

section \<open>Merging a child into a node\<close>

text \<open>
  C3. \<open>add_child\<close>: when the node has a child with the candidate's name, the count of
  that child (the first entry of that name) goes up by 1, nothing else in the dict
  changes, and the existing child is returned; otherwise the candidate is appended with
  count 1 and returned. Children with pairwise different names stay so. Hence merging
  \<open>N \<ge> 1\<close> candidates of one name \<open>l\<close> into a node whose children have different
  names leaves exactly one child named \<open>l\<close>, with count \<open>N\<close> plus the count the node
  had for \<open>l\<close> before (0 if it had no such child).
\<close>

theorem add_child_merge:
  "(get_child_by_name self (name cand) = Some child \<longrightarrow>
      snd (add_child self cand) = child
      \<and> name child = name cand
      \<and> (\<exists>pre i post.
            children self = pre @ (child, i) # post
            \<and> name cand \<notin> set (map (\<lambda>c. name (fst c)) pre)
            \<and> children (fst (add_child self cand))
                = pre @ (child, Info (info_count i + 1) (info_p i)) # post))
   \<and> (get_child_by_name self (name cand) = None \<longrightarrow>
      snd (add_child self cand) = cand
      \<and> name cand \<notin> set (map (\<lambda>c. name (fst c)) (children self))
      \<and> children (fst (add_child self cand)) = children self @ [(cand, Info 1 None)])
   \<and> (unique_labels self \<longrightarrow> unique_labels (fst (add_child self cand)))
   \<and> (unique_labels self \<and> cs \<noteq> [] \<and> (\<forall>c \<in> set cs. name c = l) \<longrightarrow>
        unique_labels (merge_all self cs)
        \<and> length (label_children (merge_all self cs) l) = 1
        \<and> label_count (merge_all self cs) l = int (length cs) + label_count self l)"
  using add_child_found [of self cand child] add_child_new [of self cand]
    add_child_unique_labels [of self cand] merge_all_same_label [of self cs l]
  by blast

theorem add_child_merge_witness:
  "get_child_by_name
      (Node ''A'' 0 True
         [(Node ''B'' 1 True [(Node ''C'' 2 False [], Info 1 None)], Info 1 None)])
      (name (Node ''B'' 1 False []))
     = Some (Node ''B'' 1 True [(Node ''C'' 2 False [], Info 1 None)])
   \<and> add_child
      (Node ''A'' 0 True
         [(Node ''B'' 1 True [(Node ''C'' 2 False [], Info 1 None)], Info 1 None)])
      (Node ''B'' 1 False [])
     = (Node ''A'' 0 True
         [(Node ''B'' 1 True [(Node ''C'' 2 False [], Info 1 None)], Info 2 None)],
        Node ''B'' 1 True [(Node ''C'' 2 False [], Info 1 None)])
   \<and> get_child_by_name
      (Node ''A'' 0 True
         [(Node ''B'' 1 True [(Node ''C'' 2 False [], Info 1 None)], Info 1 None)])
      (name (Node ''D'' 1 False [])) = None
   \<and> add_child
      (Node ''A'' 0 True
         [(Node ''B'' 1 True [(Node ''C'' 2 False [], Info 1 None)], Info 1 None)])
      (Node ''D'' 1 False [])
     = (Node ''A'' 0 True
         [(Node ''B'' 1 True [(Node ''C'' 2 False [], Info 1 None)], Info 1 None),
          (Node ''D'' 1 False [], Info 1 None)],
        Node ''D'' 1 False [])
   \<and> unique_labels
      (Node ''A'' 0 True
         [(Node ''B'' 1 True [(Node ''C'' 2 False [], Info 1 None)], Info 1 None)])
   \<and> label_children
       (merge_all
         (Node ''A'' 0 True
           [(Node ''B'' 1 True [(Node ''C'' 2 False [], Info 1 None)], Info 1 None)])
         [Node ''B'' 1 False [], Node ''B'' 1 False [], Node ''B'' 1 False []]) ''B''
     = [(Node ''B'' 1 True [(Node ''C'' 2 False [], Info 1 None)], Info 4 None)]
   \<and> label_count
       (merge_all
         (Node ''A'' 0 True
           [(Node ''B'' 1 True [(Node ''C'' 2 False [], Info 1 None)], Info 1 None)])
         [Node ''B'' 1 False [], Node ''B'' 1 False [], Node ''B'' 1 False []]) ''B''
     = 3 + 1"
proof -
  let ?b = "Node ''B'' 1 True [(Node ''C'' 2 False [], Info 1 None)]"
  let ?a = "Node ''A'' 0 True [(?b, Info 1 None)]"
  let ?cs = "[Node ''B'' 1 False [], Node ''B'' 1 False [], Node ''B'' 1 False []]"
  have found: "get_child_by_name ?a (name (Node ''B'' 1 False [])) = Some ?b"
    by (simp add: get_child_by_name_def)
  have absent: "get_child_by_name ?a (name (Node ''D'' 1 False [])) = None"
    by (simp add: get_child_by_name_def)
  have u: "unique_labels ?a"
    by (simp add: unique_labels_def)
  have cs: "unique_labels ?a \<and> ?cs \<noteq> [] \<and> (\<forall>c \<in> set ?cs. name c = ''B'')"
    using u by simp
  have r1: "snd (add_child ?a (Node ''B'' 1 False [])) = ?b"
    using add_child_merge [of ?a "Node ''B'' 1 False []" ?b ?cs "''B''"] found by blast
  have r2: "snd (add_child ?a (Node ''D'' 1 False [])) = Node ''D'' 1 False []"
    using add_child_merge [of ?a "Node ''D'' 1 False []" ?b ?cs "''B''"] absent by blast
  have r3: "label_count (merge_all ?a ?cs) ''B'' = int (length ?cs) + label_count ?a ''B''"
    using add_child_merge [of ?a "Node ''B'' 1 False []" ?b ?cs "''B''"] cs by blast
  have c0: "label_count ?a ''B'' = 1"
    by (simp add: label_count_def label_children_def)
  have e1: "fst (add_child ?a (Node ''B'' 1 False [])) = Node ''A'' 0 True [(?b, Info 2 None)]"
    by (simp add: add_child_def get_child_by_name_def)
  have e2: "fst (add_child ?a (Node ''D'' 1 False []))
      = Node ''A'' 0 True [(?b, Info 1 None), (Node ''D'' 1 False [], Info 1 None)]"
    by (simp add: add_child_def get_child_by_name_def)
  have m: "merge_all ?a ?cs = Node ''A'' 0 True [(?b, Info 4 None)]"
    by (simp add: add_child_def get_child_by_name_def)
  have lc: "label_children (Node ''A'' 0 True [(?b, Info 4 None)]) ''B'' = [(?b, Info 4 None)]"
    by (simp add: label_children_def)
  have p1: "add_child ?a (Node ''B'' 1 False []) = (Node ''A'' 0 True [(?b, Info 2 None)], ?b)"
    using r1 e1 by (simp add: prod_eq_iff)
  have p2: "add_child ?a (Node ''D'' 1 False [])
      = (Node ''A'' 0 True [(?b, Info 1 None), (Node ''D'' 1 False [], Info 1 None)],
         Node ''D'' 1 False [])"
    using r2 e2 by (simp add: prod_eq_iff)
  have p3: "label_count (merge_all ?a ?cs) ''B'' = 3 + 1"
    using r3 c0 by simp
  from found absent u p1 p2 p3 m lc show ?thesis
    by (simp only: simp_thms)
qed

section \<open>Probabilities after the evaluation pass\<close>

text \<open>
  C2. After \<open>evaluate_probability\<close> has run on a tree, every node of the tree that has
  at least one child has children whose probabilities sum to exactly 1, each child's
  probability being its count divided by the sum of the counts of the node's children.
  The pass runs to its end (no division by zero) on every tree whose counts are all
  positive.
\<close>

theorem evaluated_probabilities_sum_to_one:
  "(tree_all positive_counts (pst_root t) \<longrightarrow> (\<exists>t'. evaluate_probability t = Inr t'))
   \<and> (\<forall>t'. evaluate_probability t = Inr t' \<longrightarrow>
         (\<forall>n \<in> set (nodes_of (pst_root t')). children n \<noteq> [] \<longrightarrow>
            sum_probabilities (children n) = Some 1
            \<and> (\<forall>c \<in> set (children n).
                  info_p (snd c) = Some (of_int (info_count (snd c)) / of_int (count_sum n)))))"
proof (intro conjI impI allI)
  assume "tree_all positive_counts (pst_root t)"
  then show "\<exists>t'. evaluate_probability t = Inr t'"
    by (rule evaluate_probability_total)
next
  fix t'
  assume ev: "evaluate_probability t = Inr t'"
  show "\<forall>n \<in> set (nodes_of (pst_root t')). children n \<noteq> [] \<longrightarrow>
            sum_probabilities (children n) = Some 1
            \<and> (\<forall>c \<in> set (children n).
                  info_p (snd c) = Some (of_int (info_count (snd c)) / of_int (count_sum n)))"
  proof (intro ballI impI)
    fix n
    assume n: "n \<in> set (nodes_of (pst_root t'))" and ne: "children n \<noteq> []"
    from evaluate_probability_estimated [OF ev] n have e: "estimated n"
      by (simp add: tree_all_nodes)
    from e have "\<forall>c \<in> set (children n).
        info_p (snd c) = Some (of_int (info_count (snd c)) / of_int (count_sum n))"
      by (simp add: estimated_def ml_estimates_def list_all_iff)
    with estimated_sum_one [OF e ne]
    show "sum_probabilities (children n) = Some 1
            \<and> (\<forall>c \<in> set (children n).
                  info_p (snd c) = Some (of_int (info_count (snd c)) / of_int (count_sum n)))"
      by simp
  qed
qed


theorem evaluated_probabilities_sum_to_one_witness:
  "tree_all positive_counts
     (pst_root \<lparr>pst_root = Node ''A'' 0 True
                  [(Node ''B'' 1 True
                      [(Node ''C'' 2 False [], Info 2 None),
                       (Node ''D'' 2 False [], Info 1 None)], Info 3 None)],
               pst_name = ''A'', pst_depth = 3, pst_power = 2\<rparr>)
   \<and> evaluate_probability
        \<lparr>pst_root = Node ''A'' 0 True
                  [(Node ''B'' 1 True
                      [(Node ''C'' 2 False [], Info 2 None),
                       (Node ''D'' 2 False [], Info 1 None)], Info 3 None)],
         pst_name = ''A'', pst_depth = 3, pst_power = 2\<rparr>
       = Inr \<lparr>pst_root = Node ''A'' 0 True
                  [(Node ''B'' 1 True
                      [(Node ''C'' 2 False [], Info 2 (Some (2 / 3))),
                       (Node ''D'' 2 False [], Info 1 (Some (1 / 3)))], Info 3 (Some 1))],
              pst_name = ''A'', pst_depth = 3, pst_power = 2\<rparr>
   \<and> Node ''B'' 1 True
        [(Node ''C'' 2 False [], Info 2 (Some (2 / 3))),
         (Node ''D'' 2 False [], Info 1 (Some (1 / 3)))]
       \<in> set (nodes_of (Node ''A'' 0 True
                  [(Node ''B'' 1 True
                      [(Node ''C'' 2 False [], Info 2 (Some (2 / 3))),
                       (Node ''D'' 2 False [], Info 1 (Some (1 / 3)))], Info 3 (Some 1))]))
   \<and> sum_probabilities
        [(Node ''C'' 2 False [], Info 2 (Some (2 / 3))),
         (Node ''D'' 2 False [], Info 1 (Some (1 / 3)))] = Some 1"
proof -
  let ?b = "Node ''B'' 1 True
        [(Node ''C'' 2 False [], Info 2 (Some (2 / 3))),
         (Node ''D'' 2 False [], Info 1 (Some (1 / 3)))]"
  let ?r' = "Node ''A'' 0 True [(?b, Info 3 (Some 1))]"
  let ?t = "\<lparr>pst_root = Node ''A'' 0 True
                  [(Node ''B'' 1 True
                      [(Node ''C'' 2 False [], Info 2 None),
                       (Node ''D'' 2 False [], Info 1 None)], Info 3 None)],
               pst_name = ''A'', pst_depth = 3, pst_power = 2\<rparr>"
  let ?t' = "\<lparr>pst_root = ?r', pst_name = ''A'', pst_depth = 3, pst_power = 2\<rparr>"
  have pos: "tree_all positive_counts (pst_root ?t)"
    by (simp add: tree_all_def positive_counts_def)
  have ev: "evaluate_probability ?t = Inr ?t'"
    by (simp add: evaluate_probability_def)
  have mem: "?b \<in> set (nodes_of (pst_root ?t'))"
    by simp
  have ne: "children ?b \<noteq> []"
    by simp
  from evaluated_probabilities_sum_to_one [of ?t] ev mem ne
  have "sum_probabilities (children ?b) = Some 1"
    by blast
  with pos ev mem show ?thesis
    by simp
qed

section \<open>The distance between two nodes\<close>

text \<open>
  C4. \<open>Node.get_node_distance\<close> on an evaluated node whose flag \<open>has_children\<close> is
  accurate: a node with no children is at distance 0; otherwise the distance is the
  sum over this node's children of \<open>(p1 - p2)\<^sup>2\<close> for a child matched by name in the
  other node and of \<open>p1\<^sup>2\<close> for a child that is not matched or when the other node is
  none. In particular the distance to none is the sum of the squares of the children's
  probabilities, and children of the other node whose names are not names of this
  node's children change nothing.
\<close>

theorem node_distance_sum_of_squares:
  assumes "evaluated_node n" and "evaluated_opt other" and "flag_ok n"
  shows "node_get_node_distance n other
           = Inr (if children n = [] then 0 else spec_distance_to n other)
    \<and> node_get_node_distance n None
           = Inr (sum_list (map (\<lambda>c. (prob_or_zero (snd c))\<^sup>2) (children n)))
    \<and> (\<forall>nm lv hc cs extra.
          (\<forall>c \<in> set extra. name (fst c) \<notin> set (map (\<lambda>c. name (fst c)) (children n))) \<longrightarrow>
          node_get_node_distance n (Some (Node nm lv hc (cs @ extra)))
            = node_get_node_distance n (Some (Node nm lv hc cs)))"
proof (intro conjI allI impI)
  from assms(1) have ev: "list_all (\<lambda>c. info_p (snd c) \<noteq> None) (children n)"
    by (simp add: evaluated_node_def)
  from node_distance_loop_sum [OF ev assms(2), of 0] assms(3)
  show "node_get_node_distance n other
           = Inr (if children n = [] then 0 else spec_distance_to n other)"
    by (simp add: node_get_node_distance_def spec_distance_to_def flag_ok_def)
  have "evaluated_opt (None :: 'a node option)" by (simp add: evaluated_opt_def)
  from node_distance_loop_sum [OF ev this, of 0] assms(3)
  show "node_get_node_distance n None
           = Inr (sum_list (map (\<lambda>c. (prob_or_zero (snd c))\<^sup>2) (children n)))"
    by (simp add: node_get_node_distance_def spec_contribution_def flag_ok_def cong: map_cong)
next
  fix nm lv hc and cs extra :: "('a node \<times> info) list"
  assume "\<forall>c \<in> set extra. name (fst c) \<notin> set (map (\<lambda>c. name (fst c)) (children n))"
  from node_distance_loop_unmatched [OF this]
  show "node_get_node_distance n (Some (Node nm lv hc (cs @ extra)))
            = node_get_node_distance n (Some (Node nm lv hc cs))"
    by (simp add: node_get_node_distance_def)
qed

theorem node_distance_sum_of_squares_witness:
  "evaluated_node (Node ''B'' 1 True
      [(Node ''C'' 2 False [], Info 2 (Some (2 / 3))),
       (Node ''D'' 2 False [], Info 1 (Some (1 / 3)))])
   \<and> evaluated_opt (Some (Node ''B'' 1 True
      [(Node ''C'' 2 False [], Info 1 (Some (1 / 2))),
       (Node ''E'' 2 False [], Info 1 (Some (1 / 2)))]))
   \<and> flag_ok (Node ''B'' 1 True
      [(Node ''C'' 2 False [], Info 2 (Some (2 / 3))),
       (Node ''D'' 2 False [], Info 1 (Some (1 / 3)))])
   \<and> node_get_node_distance
       (Node ''B'' 1 True
         [(Node ''C'' 2 False [], Info 2 (Some (2 / 3))),
          (Node ''D'' 2 False [], Info 1 (Some (1 / 3)))])
       (Some (Node ''B'' 1 True
         [(Node ''C'' 2 False [], Info 1 (Some (1 / 2))),
          (Node ''E'' 2 False [], Info 1 (Some (1 / 2)))]))
      = Inr ((2 / 3 - 1 / 2)\<^sup>2 + (1 / 3)\<^sup>2)
   \<and> node_get_node_distance
       (Node ''B'' 1 True
         [(Node ''C'' 2 False [], Info 2 (Some (2 / 3))),
          (Node ''D'' 2 False [], Info 1 (Some (1 / 3)))])
       None
      = Inr ((2 / 3)\<^sup>2 + (1 / 3)\<^sup>2)
   \<and> node_get_node_distance
       (Node ''B'' 1 True
         [(Node ''C'' 2 False [], Info 2 (Some (2 / 3))),
          (Node ''D'' 2 False [], Info 1 (Some (1 / 3)))])
       (Some (Node ''B'' 1 True
         ([(Node ''C'' 2 False [], Info 1 (Some (1 / 2)))]
          @ [(Node ''E'' 2 False [], Info 1 (Some (1 / 2)))])))
      = node_get_node_distance
       (Node ''B'' 1 True
         [(Node ''C'' 2 False [], Info 2 (Some (2 / 3))),
          (Node ''D'' 2 False [], Info 1 (Some (1 / 3)))])
       (Some (Node ''B'' 1 True [(Node ''C'' 2 False [], Info 1 (Some (1 / 2)))]))"
proof -
  let ?n = "Node ''B'' 1 True
      [(Node ''C'' 2 False [], Info 2 (Some (2 / 3))),
       (Node ''D'' 2 False [], Info 1 (Some (1 / 3)))]"
  let ?o = "Node ''B'' 1 True
      [(Node ''C'' 2 False [], Info 1 (Some (1 / 2))),
       (Node ''E'' 2 False [], Info 1 (Some (1 / 2)))]"
  let ?extra = "[(Node ''E'' 2 False [], Info 1 (Some (1 / 2)))]"
  have h1: "evaluated_node ?n" by (simp add: evaluated_node_def del: not_None_eq)
  have h2: "evaluated_opt (Some ?o)"
    by (simp add: evaluated_opt_def evaluated_node_def del: not_None_eq)
  have h3: "flag_ok ?n" by (simp add: flag_ok_def)
  have h4: "\<forall>c \<in> set ?extra. name (fst c) \<notin> set (map (\<lambda>c. name (fst c)) (children ?n))"
    by simp
  note inst = node_distance_sum_of_squares [OF h1 h2 h3]
  from inst have r1: "node_get_node_distance ?n (Some ?o)
      = Inr (if children ?n = [] then 0 else spec_distance_to ?n (Some ?o))"
    by (rule conjunct1)
  from inst have r2: "node_get_node_distance ?n None
      = Inr (sum_list (map (\<lambda>c. (prob_or_zero (snd c))\<^sup>2) (children ?n)))"
    by (rule conjunct1 [OF conjunct2])
  from inst h4 have r3: "node_get_node_distance ?n
        (Some (Node ''B'' 1 True ([(Node ''C'' 2 False [], Info 1 (Some (1 / 2)))] @ ?extra)))
      = node_get_node_distance ?n
        (Some (Node ''B'' 1 True [(Node ''C'' 2 False [], Info 1 (Some (1 / 2)))]))"
    by blast
  have v1: "(if children ?n = [] then 0 else spec_distance_to ?n (Some ?o))
      = (2 / 3 - 1 / 2)\<^sup>2 + (1 / 3)\<^sup>2"
    by (simp add: spec_distance_to_def spec_contribution_def prob_or_zero_def)
  have v2: "sum_list (map (\<lambda>c. (prob_or_zero (snd c))\<^sup>2) (children ?n))
      = (2 / 3)\<^sup>2 + (1 / 3)\<^sup>2"
    by (simp add: prob_or_zero_def)
  from h1 h2 h3 r1 [unfolded v1] r2 [unfolded v2] r3 show ?thesis
    by (intro conjI)
qed

section \<open>The distance between two trees\<close>

text \<open>
  C5. The distance of an evaluated tree to itself is 0: at every step of the recursion a
  node is paired with itself, every matched contribution is \<open>(p - p)\<^sup>2 = 0\<close>. This holds
  for every tree whose nodes all have their probabilities and children with pairwise
  different names; in particular for every tree with such names after
  \<open>evaluate_probability\<close>, and for every tree made by the constructor and any number of
  \<open>add_subchain\<close> calls, on which the evaluation always succeeds.
\<close>

theorem tree_self_distance_zero:
  "(tree_all evaluated_node (pst_root t) \<and> tree_all unique_labels (pst_root t) \<longrightarrow>
      get_distance t t = Inr 0)
   \<and> (tree_all unique_labels (pst_root t0) \<and> evaluate_probability t0 = Inr t \<longrightarrow>
      get_distance t t = Inr 0)
   \<and> (PST_init c0 = Inr t1 \<longrightarrow>
      (\<exists>t2. evaluate_probability (fold (\<lambda>c u. add_subchain u c) cs t1) = Inr t2
         \<and> get_distance t2 t2 = Inr 0))"
proof (intro conjI impI)
  assume "tree_all evaluated_node (pst_root t) \<and> tree_all unique_labels (pst_root t)"
  then show "get_distance t t = Inr 0"
    by (simp add: get_distance_def pst_self_distance)
next
  assume h: "tree_all unique_labels (pst_root t0) \<and> evaluate_probability t0 = Inr t"
  then have "tree_all evaluated_node (pst_root t)" "tree_all unique_labels (pst_root t)"
    by (auto intro: evaluate_probability_evaluated evaluate_preserves_unique_labels)
  then show "get_distance t t = Inr 0"
    by (simp add: get_distance_def pst_self_distance)
next
  assume "PST_init c0 = Inr t1"
  let ?u = "fold (\<lambda>c u. add_subchain u c) cs t1"
  from \<open>PST_init c0 = Inr t1\<close> have "tree_all node_inv (pst_root t1)" by (rule PST_init_inv)
  then have inv: "tree_all node_inv (pst_root ?u)" by (rule fold_add_subchain_inv)
  from node_inv_parts(2) [OF inv] obtain t2 where ev: "evaluate_probability ?u = Inr t2"
    using evaluate_probability_total by blast
  from ev node_inv_parts(1) [OF inv] have
    "tree_all evaluated_node (pst_root t2)" "tree_all unique_labels (pst_root t2)"
    by (auto intro: evaluate_probability_evaluated evaluate_preserves_unique_labels)
  then have "get_distance t2 t2 = Inr 0"
    by (simp add: get_distance_def pst_self_distance)
  with ev show "\<exists>t2. evaluate_probability ?u = Inr t2 \<and> get_distance t2 t2 = Inr 0"
    by blast
qed

theorem tree_self_distance_zero_witness:
  "PST_init [''A'', ''B'', ''C'']
     = Inr \<lparr>pst_root = Node ''A'' 0 True
               [(Node ''B'' 1 True [(Node ''C'' 2 False [], Info 1 None)], Info 1 None)],
            pst_name = ''A'', pst_depth = 3, pst_power = 0\<rparr>
   \<and> evaluate_probability
       (fold (\<lambda>c u. add_subchain u c) [[''A'', ''B'', ''D''], [''A'', ''B'', ''C'']]
          \<lparr>pst_root = Node ''A'' 0 True
               [(Node ''B'' 1 True [(Node ''C'' 2 False [], Info 1 None)], Info 1 None)],
            pst_name = ''A'', pst_depth = 3, pst_power = 0\<rparr>)
     = Inr \<lparr>pst_root = Node ''A'' 0 True
               [(Node ''B'' 1 True
                   [(Node ''C'' 2 False [], Info 2 (Some (2 / 3))),
                    (Node ''D'' 2 False [], Info 1 (Some (1 / 3)))], Info 3 (Some 1))],
            pst_name = ''A'', pst_depth = 3, pst_power = 2\<rparr>
   \<and> tree_all evaluated_node
       (pst_root \<lparr>pst_root = Node ''A'' 0 True
               [(Node ''B'' 1 True
                   [(Node ''C'' 2 False [], Info 2 (Some (2 / 3))),
                    (Node ''D'' 2 False [], Info 1 (Some (1 / 3)))], Info 3 (Some 1))],
            pst_name = ''A'', pst_depth = 3, pst_power = 2\<rparr>)
   \<and> tree_all unique_labels
       (pst_root \<lparr>pst_root = Node ''A'' 0 True
               [(Node ''B'' 1 True
                   [(Node ''C'' 2 False [], Info 2 (Some (2 / 3))),
                    (Node ''D'' 2 False [], Info 1 (Some (1 / 3)))], Info 3 (Some 1))],
            pst_name = ''A'', pst_depth = 3, pst_power = 2\<rparr>)
   \<and> get_distance
       \<lparr>pst_root = Node ''A'' 0 True
               [(Node ''B'' 1 True
                   [(Node ''C'' 2 False [], Info 2 (Some (2 / 3))),
                    (Node ''D'' 2 False [], Info 1 (Some (1 / 3)))], Info 3 (Some 1))],
            pst_name = ''A'', pst_depth = 3, pst_power = 2\<rparr>
       \<lparr>pst_root = Node ''A'' 0 True
               [(Node ''B'' 1 True
                   [(Node ''C'' 2 False [], Info 2 (Some (2 / 3))),
                    (Node ''D'' 2 False [], Info 1 (Some (1 / 3)))], Info 3 (Some 1))],
            pst_name = ''A'', pst_depth = 3, pst_power = 2\<rparr>
     = Inr 0"
proof -
  let ?t1 = "\<lparr>pst_root = Node ''A'' 0 True
               [(Node ''B'' 1 True [(Node ''C'' 2 False [], Info 1 None)], Info 1 None)],
            pst_name = ''A'', pst_depth = 3, pst_power = 0\<rparr>"
  let ?t2 = "\<lparr>pst_root = Node ''A'' 0 True
               [(Node ''B'' 1 True
                   [(Node ''C'' 2 False [], Info 2 (Some (2 / 3))),
                    (Node ''D'' 2 False [], Info 1 (Some (1 / 3)))], Info 3 (Some 1))],
            pst_name = ''A'', pst_depth = 3, pst_power = 2\<rparr>"
  have i: "PST_init [''A'', ''B'', ''C''] = Inr ?t1"
    by (simp add: PST_init_def Node_init_def Let_def add_child_def get_child_by_name_def
        set_child_def)
  have e: "evaluate_probability
       (fold (\<lambda>c u. add_subchain u c) [[''A'', ''B'', ''D''], [''A'', ''B'', ''C'']] ?t1)
     = Inr ?t2"
    by (simp add: add_subchain_def Node_init_def add_child_def get_child_by_name_def
        set_child_def evaluate_probability_def)
  have ev: "tree_all evaluated_node (pst_root ?t2)"
    by (simp add: tree_all_def evaluated_node_def del: not_None_eq)
  have u: "tree_all unique_labels (pst_root ?t2)"
    by (simp add: tree_all_def unique_labels_def)
  from tree_self_distance_zero [where t = ?t2] ev u
  have "get_distance ?t2 ?t2 = Inr 0" by blast
  with i e ev u show ?thesis by (intro conjI)
qed

section \<open>Conditions a query reports as values\<close>

text \<open>
  C7. \<open>get_event_prob\<close> reports its non-fatal conditions as values: a window whose
  length is not the depth gives \<open>None\<close>; a window of the right length whose first
  element names no tree gives 0; and the walk gives 0 at the first step at which the
  current node has no child of the needed name, whatever follows in the window. On a
  model whose trees are evaluated no window with a first element, and no window of the
  wrong length, makes it raise.
\<close>

theorem get_event_prob_non_fatal:
  "(int (length w) \<noteq> model_depth m \<longrightarrow> get_event_prob m w = Inr PyNone)
   \<and> (int (length (x # rest)) = model_depth m \<and> get_PST_by_name m x = None \<longrightarrow>
        get_event_prob m (x # rest) = Inr (Num 0))
   \<and> (get_child_by_name nd e = None \<longrightarrow> event_walk nd prob (e # post) = Inr (Num 0))
   \<and> (int (length (x # pre @ e # post)) = model_depth m \<and> get_PST_by_name m x = Some t
        \<and> tree_all evaluated_node (pst_root t) \<and> descend (pst_root t) pre = Some k
        \<and> get_child_by_name k e = None \<longrightarrow>
        get_event_prob m (x # pre @ e # post) = Inr (Num 0))
   \<and> (model_evaluated m \<and> (w \<noteq> [] \<or> int (length w) \<noteq> model_depth m) \<longrightarrow>
        (\<exists>v. get_event_prob m w = Inr v))"
proof (intro conjI impI)
  assume "int (length w) \<noteq> model_depth m"
  then show "get_event_prob m w = Inr PyNone" by (simp add: get_event_prob_def)
next
  assume "int (length (x # rest)) = model_depth m \<and> get_PST_by_name m x = None"
  then show "get_event_prob m (x # rest) = Inr (Num 0)" by (simp add: get_event_prob_def)
next
  assume "get_child_by_name nd e = None"
  then show "event_walk nd prob (e # post) = Inr (Num 0)" by simp
next
  assume h: "int (length (x # pre @ e # post)) = model_depth m \<and> get_PST_by_name m x = Some t
        \<and> tree_all evaluated_node (pst_root t) \<and> descend (pst_root t) pre = Some k
        \<and> get_child_by_name k e = None"
  then have a: "tree_all evaluated_node (pst_root t)"
    and b: "descend (pst_root t) pre = Some k" and c: "get_child_by_name k e = None"
    by simp_all
  have "event_walk (pst_root t) 1 (pre @ e # post) = Inr (Num 0)"
    by (rule event_walk_unmatched [OF a b c])
  with h show "get_event_prob m (x # pre @ e # post) = Inr (Num 0)"
    by (simp add: get_event_prob_def)
next
  assume h: "model_evaluated m \<and> (w \<noteq> [] \<or> int (length w) \<noteq> model_depth m)"
  show "\<exists>v. get_event_prob m w = Inr v"
  proof (cases "int (length w) \<noteq> model_depth m")
    case True
    then show ?thesis by (simp add: get_event_prob_def)
  next
    case False
    with h obtain x rest where w: "w = x # rest" by (cases w) auto
    show ?thesis
    proof (cases "get_PST_by_name m x")
      case None
      with False w show ?thesis by (simp add: get_event_prob_def)
    next
      case (Some t)
      from get_PST_by_name_mem [OF Some] h have "tree_all evaluated_node (pst_root t)"
        by (simp add: model_evaluated_def list_all_iff)
      from event_walk_total [OF this, of 1 rest] Some False w show ?thesis
        by (auto simp: get_event_prob_def)
    qed
  qed
qed

theorem get_event_prob_non_fatal_witness:
  "int (length [''A'', ''B''])
      \<noteq> model_depth \<lparr>model_depth = 3, trees = [\<lparr>pst_root = Node ''A'' 0 True
               [(Node ''B'' 1 True
                   [(Node ''C'' 2 False [], Info 2 (Some (2 / 3))),
                    (Node ''D'' 2 False [], Info 1 (Some (1 / 3)))], Info 3 (Some 1))],
            pst_name = ''A'', pst_depth = 3, pst_power = 2\<rparr>]\<rparr>
   \<and> get_event_prob \<lparr>model_depth = 3, trees = [\<lparr>pst_root = Node ''A'' 0 True
               [(Node ''B'' 1 True
                   [(Node ''C'' 2 False [], Info 2 (Some (2 / 3))),
                    (Node ''D'' 2 False [], Info 1 (Some (1 / 3)))], Info 3 (Some 1))],
            pst_name = ''A'', pst_depth = 3, pst_power = 2\<rparr>]\<rparr> [''A'', ''B'']
       = Inr PyNone
   \<and> get_PST_by_name \<lparr>model_depth = 3, trees = [\<lparr>pst_root = Node ''A'' 0 True
               [(Node ''B'' 1 True
                   [(Node ''C'' 2 False [], Info 2 (Some (2 / 3))),
                    (Node ''D'' 2 False [], Info 1 (Some (1 / 3)))], Info 3 (Some 1))],
            pst_name = ''A'', pst_depth = 3, pst_power = 2\<rparr>]\<rparr> ''Z'' = None
   \<and> get_event_prob \<lparr>model_depth = 3, trees = [\<lparr>pst_root = Node ''A'' 0 True
               [(Node ''B'' 1 True
                   [(Node ''C'' 2 False [], Info 2 (Some (2 / 3))),
                    (Node ''D'' 2 False [], Info 1 (Some (1 / 3)))], Info 3 (Some 1))],
            pst_name = ''A'', pst_depth = 3, pst_power = 2\<rparr>]\<rparr> [''Z'', ''B'', ''C'']
       = Inr (Num 0)
   \<and> descend (Node ''A'' 0 True
               [(Node ''B'' 1 True
                   [(Node ''C'' 2 False [], Info 2 (Some (2 / 3))),
                    (Node ''D'' 2 False [], Info 1 (Some (1 / 3)))], Info 3 (Some 1))]) [''B'']
       = Some (Node ''B'' 1 True
                   [(Node ''C'' 2 False [], Info 2 (Some (2 / 3))),
                    (Node ''D'' 2 False [], Info 1 (Some (1 / 3)))])
   \<and> get_child_by_name (Node ''B'' 1 True
                   [(Node ''C'' 2 False [], Info 2 (Some (2 / 3))),
                    (Node ''D'' 2 False [], Info 1 (Some (1 / 3)))]) ''X'' = None
   \<and> get_event_prob \<lparr>model_depth = 3, trees = [\<lparr>pst_root = Node ''A'' 0 True
               [(Node ''B'' 1 True
                   [(Node ''C'' 2 False [], Info 2 (Some (2 / 3))),
                    (Node ''D'' 2 False [], Info 1 (Some (1 / 3)))], Info 3 (Some 1))],
            pst_name = ''A'', pst_depth = 3, pst_power = 2\<rparr>]\<rparr> [''A'', ''B'', ''X'']
       = Inr (Num 0)
   \<and> model_evaluated \<lparr>model_depth = 3, trees = [\<lparr>pst_root = Node ''A'' 0 True
               [(Node ''B'' 1 True
                   [(Node ''C'' 2 False [], Info 2 (Some (2 / 3))),
                    (Node ''D'' 2 False [], Info 1 (Some (1 / 3)))], Info 3 (Some 1))],
            pst_name = ''A'', pst_depth = 3, pst_power = 2\<rparr>]\<rparr>
   \<and> (\<exists>v. get_event_prob \<lparr>model_depth = 3, trees = [\<lparr>pst_root = Node ''A'' 0 True
               [(Node ''B'' 1 True
                   [(Node ''C'' 2 False [], Info 2 (Some (2 / 3))),
                    (Node ''D'' 2 False [], Info 1 (Some (1 / 3)))], Info 3 (Some 1))],
            pst_name = ''A'', pst_depth = 3, pst_power = 2\<rparr>]\<rparr> [''A'', ''B'', ''C'']
          = Inr v)"
proof -
  let ?b = "Node ''B'' 1 True
                   [(Node ''C'' 2 False [], Info 2 (Some (2 / 3))),
                    (Node ''D'' 2 False [], Info 1 (Some (1 / 3)))]"
  let ?r = "Node ''A'' 0 True [(?b, Info 3 (Some 1))]"
  let ?t = "\<lparr>pst_root = ?r, pst_name = ''A'', pst_depth = 3, pst_power = 2\<rparr>"
  let ?m = "\<lparr>model_depth = 3, trees = [?t]\<rparr>"
  have h1: "int (length [''A'', ''B'']) \<noteq> model_depth ?m" by simp
  have h2: "int (length (''Z'' # [''B'', ''C''])) = model_depth ?m
      \<and> get_PST_by_name ?m ''Z'' = None"
    by (simp add: get_PST_by_name_def)
  have ev: "tree_all evaluated_node ?r"
    by (simp add: tree_all_def evaluated_node_def del: not_None_eq)
  have d: "descend ?r [''B''] = Some ?b" by (simp add: get_child_by_name_def)
  have g: "get_child_by_name ?b ''X'' = None" by (simp add: get_child_by_name_def)
  have h4: "int (length (''A'' # [''B''] @ ''X'' # [])) = model_depth ?m
      \<and> get_PST_by_name ?m ''A'' = Some ?t
      \<and> tree_all evaluated_node (pst_root ?t) \<and> descend (pst_root ?t) [''B''] = Some ?b
      \<and> get_child_by_name ?b ''X'' = None"
    using ev d g by (simp add: get_PST_by_name_def)
  have me: "model_evaluated ?m"
    using ev by (simp add: model_evaluated_def)
  have h5: "model_evaluated ?m
      \<and> ([''A'', ''B'', ''C''] \<noteq> [] \<or> int (length [''A'', ''B'', ''C'']) \<noteq> model_depth ?m)"
    using me by simp
  have r1: "get_event_prob ?m [''A'', ''B''] = Inr PyNone"
    using get_event_prob_non_fatal [where w = "[''A'', ''B'']" and m = ?m] h1 by blast
  have r2: "get_event_prob ?m (''Z'' # [''B'', ''C'']) = Inr (Num 0)"
    using get_event_prob_non_fatal [where m = ?m and x = "''Z''" and rest = "[''B'', ''C'']"]
      h2 by blast
  have r4: "get_event_prob ?m (''A'' # [''B''] @ ''X'' # []) = Inr (Num 0)"
    using get_event_prob_non_fatal [where m = ?m and x = "''A''" and pre = "[''B'']"
        and e = "''X''" and post = "[]" and t = ?t and k = ?b] h4 by blast
  have r5: "\<exists>v. get_event_prob ?m [''A'', ''B'', ''C''] = Inr v"
    using get_event_prob_non_fatal [where w = "[''A'', ''B'', ''C'']" and m = ?m] h5 by blast
  from h1 r1 h2 r2 d g r4 me r5 show ?thesis by simp
qed

section \<open>The probabilities along a sequence\<close>

text \<open>
  C8, as stated: for every sequence \<open>get_chain_prob\<close> returns a list as long as the
  sequence. The list starts with depth-many \<open>NaN\<close> whatever the sequence is, so for a
  sequence shorter than the depth it is longer than the sequence: with depth 3 the
  two-element sequence below gets three entries.
\<close>

theorem get_chain_prob_length_counterexample:
  "fit (PST_model_init 3) [''A'', ''B'', ''C'', ''D'']
     = Inr \<lparr>model_depth = 3, trees = [\<lparr>pst_root = Node ''A'' 0 True
               [(Node ''B'' 1 True [(Node ''C'' 2 False [], Info 1 (Some 1))],
                 Info 1 (Some 1))],
            pst_name = ''A'', pst_depth = 3, pst_power = 0\<rparr>]\<rparr>
   \<and> get_chain_prob \<lparr>model_depth = 3, trees = [\<lparr>pst_root = Node ''A'' 0 True
               [(Node ''B'' 1 True [(Node ''C'' 2 False [], Info 1 (Some 1))],
                 Info 1 (Some 1))],
            pst_name = ''A'', pst_depth = 3, pst_power = 0\<rparr>]\<rparr> [''A'', ''B'']
       = Inr [NaN, NaN, NaN]
   \<and> length [NaN, NaN, NaN] \<noteq> length [''A'', ''B'']"
proof -
  have ws: "get_subchains (PST_model_init 3) [''A'', ''B'', ''C'', ''D''] = [[''A'', ''B'', ''C'']]"
    by (simp add: get_subchains_def PST_model_init_def py_slice_def)
  have f: "fit (PST_model_init 3) [''A'', ''B'', ''C'', ''D'']
     = Inr \<lparr>model_depth = 3, trees = [\<lparr>pst_root = Node ''A'' 0 True
               [(Node ''B'' 1 True [(Node ''C'' 2 False [], Info 1 (Some 1))],
                 Info 1 (Some 1))],
            pst_name = ''A'', pst_depth = 3, pst_power = 0\<rparr>]\<rparr>"
    unfolding fit_def fit_windows_def ws
    by (simp add: fit_step_def get_PST_by_name_def
        PST_model_init_def PST_init_def Node_init_def Let_def add_child_def
        get_child_by_name_def set_child_def evaluate_probability_def)
  have g: "get_chain_prob \<lparr>model_depth = 3, trees = [\<lparr>pst_root = Node ''A'' 0 True
               [(Node ''B'' 1 True [(Node ''C'' 2 False [], Info 1 (Some 1))],
                 Info 1 (Some 1))],
            pst_name = ''A'', pst_depth = 3, pst_power = 0\<rparr>]\<rparr> [''A'', ''B'']
       = Inr [NaN, NaN, NaN]"
    by (simp add: get_chain_prob_def get_subchains_def numeral_3_eq_3)
  from f g show ?thesis by simp
qed

text \<open>
  C8, amended. On a model whose trees are evaluated and whose depth is at least 1, for
  every sequence at least as long as the depth, \<open>get_chain_prob\<close> returns a list of the
  length of the sequence, whose first depth-many entries are \<open>NaN\<close> and whose other
  entries are \<open>get_event_prob\<close> of the windows of \<open>_get_subchains\<close>, in order.
\<close>

theorem get_chain_prob_aligned:
  assumes "model_evaluated m" and "1 \<le> model_depth m"
    and "model_depth m \<le> int (length chain)"
  shows "\<exists>vs. get_chain_prob m chain = Inr vs
     \<and> length vs = length chain
     \<and> take (nat (model_depth m)) vs = replicate (nat (model_depth m)) NaN
     \<and> map Inr (drop (nat (model_depth m)) vs)
         = map (get_event_prob m) (get_subchains m chain)"
proof -
  let ?d = "nat (model_depth m)"
  let ?ws = "get_subchains m chain"
  from assms(2) have d0: "0 \<le> model_depth m" by simp
  have "\<forall>w \<in> set ?ws. w \<noteq> [] \<or> int (length w) \<noteq> model_depth m"
  proof
    fix w assume "w \<in> set ?ws"
    from get_subchains_window_length [OF d0 this] assms(2) have "w \<noteq> []" by auto
    then show "w \<noteq> [] \<or> int (length w) \<noteq> model_depth m" ..
  qed
  from event_probs_total [OF assms(1) this] obtain vs where
    vs: "event_probs m ?ws = Inr vs" "map Inr vs = map (get_event_prob m) ?ws"
    by blast
  from vs(2) have "length vs = length ?ws" by (rule map_eq_imp_length_eq)
  also have "\<dots> = nat (int (length chain) - model_depth m)"
    by (simp add: get_subchains_def)
  finally have len: "length vs = nat (int (length chain) - model_depth m)" .
  from vs(1) have r: "get_chain_prob m chain = Inr (replicate ?d NaN @ vs)"
    by (simp add: get_chain_prob_def)
  from len assms(3) d0 have "length (replicate ?d NaN @ vs) = length chain" by simp
  moreover have "take ?d (replicate ?d NaN @ vs) = replicate ?d NaN" by simp
  moreover from vs(2) have "map Inr (drop ?d (replicate ?d NaN @ vs))
      = map (get_event_prob m) ?ws" by simp
  ultimately show ?thesis using r by blast
qed


theorem get_chain_prob_aligned_witness:
  "model_evaluated \<lparr>model_depth = 3, trees = [\<lparr>pst_root = Node ''A'' 0 True
               [(Node ''B'' 1 True
                   [(Node ''C'' 2 False [], Info 2 (Some (2 / 3))),
                    (Node ''D'' 2 False [], Info 1 (Some (1 / 3)))], Info 3 (Some 1))],
            pst_name = ''A'', pst_depth = 3, pst_power = 2\<rparr>]\<rparr>
   \<and> 1 \<le> model_depth \<lparr>model_depth = 3, trees = [\<lparr>pst_root = Node ''A'' 0 True
               [(Node ''B'' 1 True
                   [(Node ''C'' 2 False [], Info 2 (Some (2 / 3))),
                    (Node ''D'' 2 False [], Info 1 (Some (1 / 3)))], Info 3 (Some 1))],
            pst_name = ''A'', pst_depth = 3, pst_power = 2\<rparr>]\<rparr>
   \<and> model_depth \<lparr>model_depth = 3, trees = [\<lparr>pst_root = Node ''A'' 0 True
               [(Node ''B'' 1 True
                   [(Node ''C'' 2 False [], Info 2 (Some (2 / 3))),
                    (Node ''D'' 2 False [], Info 1 (Some (1 / 3)))], Info 3 (Some 1))],
            pst_name = ''A'', pst_depth = 3, pst_power = 2\<rparr>]\<rparr>
       \<le> int (length [''A'', ''B'', ''C'', ''A'', ''B'', ''D''])
   \<and> get_chain_prob \<lparr>model_depth = 3, trees = [\<lparr>pst_root = Node ''A'' 0 True
               [(Node ''B'' 1 True
                   [(Node ''C'' 2 False [], Info 2 (Some (2 / 3))),
                    (Node ''D'' 2 False [], Info 1 (Some (1 / 3)))], Info 3 (Some 1))],
            pst_name = ''A'', pst_depth = 3, pst_power = 2\<rparr>]\<rparr>
         [''A'', ''B'', ''C'', ''A'', ''B'', ''D'']
       = Inr [NaN, NaN, NaN, Num (2 / 3), Num 0, Num 0]
   \<and> length [NaN, NaN, NaN, Num (2 / 3), Num 0, Num 0]
       = length [''A'', ''B'', ''C'', ''A'', ''B'', ''D'']"
proof -
  let ?b = "Node ''B'' 1 True
                   [(Node ''C'' 2 False [], Info 2 (Some (2 / 3))),
                    (Node ''D'' 2 False [], Info 1 (Some (1 / 3)))]"
  let ?r = "Node ''A'' 0 True [(?b, Info 3 (Some 1))]"
  let ?t = "\<lparr>pst_root = ?r, pst_name = ''A'', pst_depth = 3, pst_power = 2\<rparr>"
  let ?m = "\<lparr>model_depth = 3, trees = [?t]\<rparr>"
  let ?chain = "[''A'', ''B'', ''C'', ''A'', ''B'', ''D'']"
  have h1: "model_evaluated ?m"
    by (simp add: model_evaluated_def tree_all_def evaluated_node_def del: not_None_eq)
  have h2: "1 \<le> model_depth ?m" by simp
  have h3: "model_depth ?m \<le> int (length ?chain)" by simp
  have ws: "get_subchains ?m ?chain
      = [[''A'', ''B'', ''C''], [''B'', ''C'', ''A''], [''C'', ''A'', ''B'']]"
    by (simp add: get_subchains_def py_slice_def upt_rec)
  have e1: "get_event_prob ?m [''A'', ''B'', ''C''] = Inr (Num (2 / 3))"
    by (simp add: get_event_prob_def get_PST_by_name_def get_child_by_name_def
        dict_get_def get_p_def)
  have e2: "get_event_prob ?m [''B'', ''C'', ''A''] = Inr (Num 0)"
    by (simp add: get_event_prob_def get_PST_by_name_def)
  have e3: "get_event_prob ?m [''C'', ''A'', ''B''] = Inr (Num 0)"
    by (simp add: get_event_prob_def get_PST_by_name_def)
  have rep: "replicate (nat (model_depth ?m)) NaN = [NaN, NaN, NaN]"
    by (simp add: numeral_3_eq_3)
  have ep: "event_probs ?m [[''A'', ''B'', ''C''], [''B'', ''C'', ''A''], [''C'', ''A'', ''B'']]
      = Inr [Num (2 / 3), Num 0, Num 0]"
    by (simp only: event_probs.simps e1 e2 e3 bind_err_simps)
  have v: "get_chain_prob ?m ?chain = Inr [NaN, NaN, NaN, Num (2 / 3), Num 0, Num 0]"
    unfolding get_chain_prob_def ws rep ep by simp
  from get_chain_prob_aligned [OF h1 h2 h3] obtain vs where
    "get_chain_prob ?m ?chain = Inr vs" "length vs = length ?chain" by blast
  with v have "length [NaN, NaN, NaN, Num (2 / 3), Num 0, Num 0] = length ?chain"
    by simp
  with h1 h2 h3 v show ?thesis by (intro conjI)
qed

section \<open>The scenario at depth 3\<close>

text \<open>
  C1. Depth 3, windows \<open>[A,B,C]\<close>, \<open>[A,B,D]\<close>, \<open>[A,B,C]\<close>: the first window makes the
  tree \<open>A\<close>, the other two are absorbed (\<open>power = 2\<close>); node \<open>B\<close> of the tree has
  exactly the children \<open>C\<close> with count 2 and \<open>D\<close> with count 1, and after the evaluation
  their probabilities are 2/3 and 1/3. Then the probability of \<open>[A,B,C]\<close> is 2/3, of
  \<open>[A,B,D]\<close> is 1/3, of \<open>[A,B,X]\<close> is 0 for every \<open>X\<close> other than \<open>C\<close> and \<open>D\<close>, and
  \<open>[A,B]\<close>, of length 2, gives \<open>None\<close>.
\<close>

theorem scenario_depth_three:
  "fit_loop (PST_model_init 3)
       [[''A'', ''B'', ''C''], [''A'', ''B'', ''D''], [''A'', ''B'', ''C'']]
     = Inr \<lparr>model_depth = 3,
            trees = [\<lparr>pst_root = Node ''A'' 0 True
                        [(Node ''B'' 1 True
                            [(Node ''C'' 2 False [], Info 2 None),
                             (Node ''D'' 2 False [], Info 1 None)], Info 3 None)],
                      pst_name = ''A'', pst_depth = 3, pst_power = 2\<rparr>]\<rparr>
   \<and> fit_windows (PST_model_init 3)
       [[''A'', ''B'', ''C''], [''A'', ''B'', ''D''], [''A'', ''B'', ''C'']] = Inr scenario_model
   \<and> get_PST_by_name scenario_model ''A'' = Some scenario_tree
   \<and> get_child_by_name (pst_root scenario_tree) ''B'' = Some scenario_B
   \<and> children scenario_B
       = [(Node ''C'' 2 False [], Info 2 (Some (2 / 3))),
          (Node ''D'' 2 False [], Info 1 (Some (1 / 3)))]
   \<and> get_event_prob scenario_model [''A'', ''B'', ''C''] = Inr (Num (2 / 3))
   \<and> get_event_prob scenario_model [''A'', ''B'', ''D''] = Inr (Num (1 / 3))
   \<and> (\<forall>X. X \<notin> {''C'', ''D''} \<longrightarrow>
         get_event_prob scenario_model [''A'', ''B'', X] = Inr (Num 0))
   \<and> get_event_prob scenario_model [''A'', ''B''] = Inr PyNone"
proof (intro conjI allI impI)
  show "get_PST_by_name scenario_model ''A'' = Some scenario_tree"
    by (simp add: get_PST_by_name_def scenario_model_def scenario_tree_def)
  show "get_child_by_name (pst_root scenario_tree) ''B'' = Some scenario_B"
    by (simp add: get_child_by_name_def scenario_tree_def scenario_B_def)
  show "children scenario_B
       = [(Node ''C'' 2 False [], Info 2 (Some (2 / 3))),
          (Node ''D'' 2 False [], Info 1 (Some (1 / 3)))]"
    by (simp add: scenario_B_def)
  show "get_event_prob scenario_model [''A'', ''B'', ''C''] = Inr (Num (2 / 3))"
    by (simp add: get_event_prob_def get_PST_by_name_def get_child_by_name_def
        dict_get_def get_p_def scenario_model_def scenario_tree_def scenario_B_def)
  show "get_event_prob scenario_model [''A'', ''B'', ''D''] = Inr (Num (1 / 3))"
    by (simp add: get_event_prob_def get_PST_by_name_def get_child_by_name_def
        dict_get_def get_p_def scenario_model_def scenario_tree_def scenario_B_def)
  show "get_event_prob scenario_model [''A'', ''B''] = Inr PyNone"
    by (simp add: get_event_prob_def scenario_model_def)
next
  fix X :: string
  assume "X \<notin> {''C'', ''D''}"
  then have "''C'' \<noteq> X" "''D'' \<noteq> X" by auto
  then show "get_event_prob scenario_model [''A'', ''B'', X] = Inr (Num 0)"
    by (simp add: get_event_prob_def get_PST_by_name_def get_child_by_name_def
        dict_get_def get_p_def scenario_model_def scenario_tree_def scenario_B_def)
qed (rule scenario_fit_loop scenario_fit_windows)+

theorem scenario_depth_three_witness:
  "''X'' \<notin> {''C'', ''D''}
   \<and> get_event_prob scenario_model [''A'', ''B'', ''X''] = Inr (Num 0)
   \<and> get_event_prob scenario_model [''A'', ''B'', ''C''] = Inr (Num (2 / 3))"
proof -
  have h: "''X'' \<notin> {''C'', ''D''}" by simp
  have a: "\<forall>X. X \<notin> {''C'', ''D''} \<longrightarrow>
         get_event_prob scenario_model [''A'', ''B'', X] = Inr (Num 0)"
    using scenario_depth_three by (elim conjE)
  have b: "get_event_prob scenario_model [''A'', ''B'', ''C''] = Inr (Num (2 / 3))"
    using scenario_depth_three by (elim conjE)
  from a have "''X'' \<notin> {''C'', ''D''} \<longrightarrow>
      get_event_prob scenario_model [''A'', ''B'', ''X''] = Inr (Num 0)"
    by (rule spec)
  from this h have "get_event_prob scenario_model [''A'', ''B'', ''X''] = Inr (Num 0)"
    by (rule mp)
  with h b show ?thesis by (intro conjI)
qed

end
